theory Spec2Isabelle
  imports Main
begin

section \<open>JavaScript values and strings\<close>

text \<open>
  The component \<^verbatim>\<open>src/Frontend/src/components/chatbot.tsx\<close> works on JavaScript strings
  and on a loosely typed analysis record. A JavaScript string is a sequence of UTF-16 code
  units; \<^verbatim>\<open>length\<close>, \<^verbatim>\<open>slice\<close>, \<^verbatim>\<open>startsWith\<close> and regular expressions without
  the \<^verbatim>\<open>u\<close> flag all count code units. A code unit is modelled as a natural number
  (below 65536 in every real string; no definition below does arithmetic that could leave
  that range on a real string).
\<close>

type_synonym jsstring = "nat list"

definition js :: "string \<Rightarrow> jsstring" where
  "js s = map of_char s"

text \<open>
  The values the analysis record is made of (what JSON can carry, plus \<^verbatim>\<open>undefined\<close> for
  an absent property). An object is the list of its own enumerable properties in the
  order \<^verbatim>\<open>Object.values\<close> enumerates them. Numbers are only ever tested for
  truthiness by this component, so an integer payload stands for any number.
\<close>

datatype jsval =
    JUndefined
  | JNull
  | JBool bool
  | JNum int
  | JStr jsstring
  | JArr "jsval list"
  | JObj "(jsstring \<times> jsval) list"

datatype jserr = TypeError | SyntaxError | ServiceError

text \<open>\<^verbatim>\<open>!value\<close> is true for undefined, null, false, 0 and the empty string.\<close>

fun truthy :: "jsval \<Rightarrow> bool" where
  "truthy JUndefined = False"
| "truthy JNull = False"
| "truthy (JBool b) = b"
| "truthy (JNum n) = (n \<noteq> 0)"
| "truthy (JStr s) = (s \<noteq> [])"
| "truthy (JArr xs) = True"
| "truthy (JObj kvs) = True"

text \<open>
  Property reads. \<^verbatim>\<open>v.k\<close> throws a TypeError on undefined and null; \<^verbatim>\<open>v?.k\<close> gives
  undefined there. On an object the own property is read; none of the names this component
  reads is inherited from a prototype, an array index or \<^verbatim>\<open>length\<close>, so on every other
  value the read gives undefined.
\<close>

fun getprop :: "jsval \<Rightarrow> jsstring \<Rightarrow> jserr + jsval" where
  "getprop JUndefined k = Inl TypeError"
| "getprop JNull k = Inl TypeError"
| "getprop (JObj kvs) k = Inr (case map_of kvs k of None \<Rightarrow> JUndefined | Some v \<Rightarrow> v)"
| "getprop v k = Inr JUndefined"

fun optprop :: "jsval \<Rightarrow> jsstring \<Rightarrow> jsval" where
  "optprop (JObj kvs) k = (case map_of kvs k of None \<Rightarrow> JUndefined | Some v \<Rightarrow> v)"
| "optprop v k = JUndefined"

text \<open>White space as \<^verbatim>\<open>String.prototype.trim\<close> and the regular expression class
  \<^verbatim>\<open>\s\<close> define it: the WhiteSpace and LineTerminator code points.\<close>

definition is_space :: "nat \<Rightarrow> bool" where
  "is_space c \<longleftrightarrow>
     c = 9 \<or> c = 10 \<or> c = 11 \<or> c = 12 \<or> c = 13 \<or> c = 32 \<or> c = 160 \<or> c = 5760 \<or>
     (8192 \<le> c \<and> c \<le> 8202) \<or> c = 8232 \<or> c = 8233 \<or> c = 8239 \<or> c = 8287 \<or>
     c = 12288 \<or> c = 65279"

definition trimStart :: "jsstring \<Rightarrow> jsstring" where
  "trimStart s = dropWhile is_space s"

definition trimEnd :: "jsstring \<Rightarrow> jsstring" where
  "trimEnd s = rev (dropWhile is_space (rev s))"

definition trim :: "jsstring \<Rightarrow> jsstring" where
  "trim s = trimEnd (trimStart s)"

text \<open>
  \<^verbatim>\<open>toLowerCase\<close> on the letters A-Z; other code units are kept. The harvest applies it
  only to matches of the email pattern, which consist of ASCII characters
  (lemma \<open>EMAIL_REGEX_at_ascii\<close>), where this is what JavaScript computes. Where the
  component lower-cases a name, which may be in any script, the built-in
  \<^verbatim>\<open>String.prototype.toLowerCase\<close> is a parameter instead.
\<close>

definition lower_unit :: "nat \<Rightarrow> nat" where
  "lower_unit c = (if 65 \<le> c \<and> c \<le> 90 then c + 32 else c)"

definition toLowerCase :: "jsstring \<Rightarrow> jsstring" where
  "toLowerCase s = map lower_unit s"

section \<open>The email pattern\<close>

text \<open>
  \<^verbatim>\<open>const EMAIL_REGEX = /[A-Z0-9._%+-]+@[A-Z0-9.-]+\.[A-Z]{2,}/gi;\<close>

  With the \<^verbatim>\<open>i\<close> flag and no \<^verbatim>\<open>u\<close> flag the class \<^verbatim>\<open>[A-Z]\<close> matches exactly the ASCII
  letters of both cases.
\<close>

definition is_alpha :: "nat \<Rightarrow> bool" where
  "is_alpha c \<longleftrightarrow> (65 \<le> c \<and> c \<le> 90) \<or> (97 \<le> c \<and> c \<le> 122)"

definition is_digit :: "nat \<Rightarrow> bool" where
  "is_digit c \<longleftrightarrow> 48 \<le> c \<and> c \<le> 57"

definition is_local :: "nat \<Rightarrow> bool" where
  "is_local c \<longleftrightarrow> is_alpha c \<or> is_digit c \<or> c = 46 \<or> c = 95 \<or> c = 37 \<or> c = 43 \<or> c = 45"

definition is_domain :: "nat \<Rightarrow> bool" where
  "is_domain c \<longleftrightarrow> is_alpha c \<or> is_digit c \<or> c = 46 \<or> c = 45"

text \<open>
  The backtracking matcher, one function per quantifier, each trying the longest
  repetition first and giving back one character at a time:
  \<^item> \<open>match_tld\<close> is \<^verbatim>\<open>[A-Z]{2,}\<close> at the end of the pattern: the longest run of
    letters, provided there are two;
  \<^item> \<open>match_domain k s\<close> is \<^verbatim>\<open>[A-Z0-9.-]+\.[A-Z]{2,}\<close> with the class repeated
    \<open>k\<close> times, then \<open>k - 1\<close> times, down to once;
  \<^item> \<open>match_local k s\<close> is the whole pattern with the first class repeated \<open>k\<close>
    times, then fewer, down to once.
  Each returns the matched text.
\<close>

definition match_tld :: "jsstring \<Rightarrow> jsstring option" where
  "match_tld s = (let t = takeWhile is_alpha s in if 2 \<le> length t then Some t else None)"

fun match_domain :: "nat \<Rightarrow> jsstring \<Rightarrow> jsstring option" where
  "match_domain 0 s = None"
| "match_domain (Suc k) s =
     (case drop (Suc k) s of
        [] \<Rightarrow> match_domain k s
      | c # rest \<Rightarrow>
          if c = 46 then
            (case match_tld rest of
               Some t \<Rightarrow> Some (take (Suc k) s @ [46] @ t)
             | None \<Rightarrow> match_domain k s)
          else match_domain k s)"

fun match_local :: "nat \<Rightarrow> jsstring \<Rightarrow> jsstring option" where
  "match_local 0 s = None"
| "match_local (Suc k) s =
     (case drop (Suc k) s of
        [] \<Rightarrow> match_local k s
      | c # rest \<Rightarrow>
          if c = 64 then
            (case match_domain (length (takeWhile is_domain rest)) rest of
               Some d \<Rightarrow> Some (take (Suc k) s @ [64] @ d)
             | None \<Rightarrow> match_local k s)
          else match_local k s)"

text \<open>One attempt of the pattern at the start of \<open>s\<close>.\<close>

definition EMAIL_REGEX_at :: "jsstring \<Rightarrow> jsstring option" where
  "EMAIL_REGEX_at s = match_local (length (takeWhile is_local s)) s"

text \<open>
  The global scan of \<^verbatim>\<open>value.match(EMAIL_REGEX)\<close>: the pattern is tried at each position
  from the left; after a match the scan resumes at its end (one further if the match were
  empty), after a failure one character on.
\<close>

function scan_EMAIL_REGEX :: "jsstring \<Rightarrow> jsstring list" where
  "scan_EMAIL_REGEX [] = []"
| "scan_EMAIL_REGEX (c # cs) =
     (case EMAIL_REGEX_at (c # cs) of
        None \<Rightarrow> scan_EMAIL_REGEX cs
      | Some m \<Rightarrow> m # scan_EMAIL_REGEX (drop (max 1 (length m)) (c # cs)))"
  by pat_completeness auto
termination
  by (relation "measure length") (auto split: nat.splits simp: max_def)

text \<open>\<^verbatim>\<open>String.prototype.match\<close> with a global pattern: null when nothing matches.\<close>

definition match_EMAIL_REGEX :: "jsstring \<Rightarrow> jsstring list option" where
  "match_EMAIL_REGEX s = (case scan_EMAIL_REGEX s of [] \<Rightarrow> None | ms \<Rightarrow> Some ms)"

section \<open>collectEmails\<close>

text \<open>
  \<^verbatim>\<open>collectEmails(value, push)\<close> calls \<open>push\<close> for its effect; the effect is a state
  transformer here, and the function returns the state after all calls.
\<close>

fun collectEmails :: "jsval \<Rightarrow> (jsstring \<Rightarrow> 's \<Rightarrow> 's) \<Rightarrow> 's \<Rightarrow> 's" where
  "collectEmails (JStr s) push st =
     (if s = [] then st
      else (case match_EMAIL_REGEX s of
              None \<Rightarrow> st
            | Some matches \<Rightarrow>
                fold (\<lambda>m st'. let trimmed = trim m in
                                if trimmed \<noteq> [] then push trimmed st' else st')
                     matches st))"
| "collectEmails (JArr xs) push st = fold (\<lambda>item. collectEmails item push) xs st"
| "collectEmails (JObj kvs) push st = fold (\<lambda>item. collectEmails item push) (map snd kvs) st"
| "collectEmails JUndefined push st = st"
| "collectEmails JNull push st = st"
| "collectEmails (JBool b) push st = st"
| "collectEmails (JNum n) push st = st"

section \<open>The component's derived values\<close>

text \<open>
  A computation that may throw returns \<open>Inl\<close> the error; \<open>ebind\<close> sequences two of
  them, the second not run once the first has thrown.
\<close>

definition ebind :: "jserr + 'a \<Rightarrow> ('a \<Rightarrow> jserr + 'b) \<Rightarrow> jserr + 'b" where
  "ebind r f = (case r of Inl e \<Rightarrow> Inl e | Inr v \<Rightarrow> f v)"

text \<open>\<^verbatim>\<open>typeof v === 'object'\<close> holds of null, arrays and objects.\<close>

fun typeof_object :: "jsval \<Rightarrow> bool" where
  "typeof_object JNull = True"
| "typeof_object (JArr xs) = True"
| "typeof_object (JObj kvs) = True"
| "typeof_object v = False"

text \<open>
  \<^verbatim>\<open>publicData\<close> (lines 53-69). \<^verbatim>\<open>JSON.parse\<close> is a parameter: it returns the parsed
  value or throws. \<open>publicData_of\<close> is the body of the memo after \<open>raw\<close> is read.
\<close>

definition publicData_of :: "(jsstring \<Rightarrow> jserr + jsval) \<Rightarrow> jsval \<Rightarrow> jsval" where
  "publicData_of JSON_parse raw =
     (if \<not> truthy raw then JObj []
      else (case raw of
              JStr s \<Rightarrow>
                (case JSON_parse s of
                   Inr parsed \<Rightarrow>
                     if typeof_object parsed \<and> parsed \<noteq> JNull then parsed else JObj []
                 | Inl error \<Rightarrow> JObj [])
            | _ \<Rightarrow> if typeof_object raw then raw else JObj []))"

definition publicData :: "(jsstring \<Rightarrow> jserr + jsval) \<Rightarrow> jsval \<Rightarrow> jserr + jsval" where
  "publicData JSON_parse analysisData =
     ebind (getprop analysisData (js ''public_data'')) (\<lambda>raw.
       Inr (publicData_of JSON_parse raw))"

text \<open>\<^verbatim>\<open>(analysisData.metadata?.names ?? {})\<close>\<close>

definition namesMeta :: "jsval \<Rightarrow> jserr + jsval" where
  "namesMeta analysisData =
     ebind (getprop analysisData (js ''metadata'')) (\<lambda>metadata.
       let names = optprop metadata (js ''names'') in
       Inr (if names = JUndefined \<or> names = JNull then JObj [] else names))"

text \<open>\<^verbatim>\<open>analysisData.memo?.draft_v1?.company_overview\<close>\<close>

definition company_overview :: "jsval \<Rightarrow> jserr + jsval" where
  "company_overview analysisData =
     ebind (getprop analysisData (js ''memo'')) (\<lambda>memo.
       Inr (optprop (optprop memo (js ''draft_v1'')) (js ''company_overview'')))"

definition coerce :: "jsval \<Rightarrow> jsstring" where
  "coerce v = (case v of JStr s \<Rightarrow> trim s | _ \<Rightarrow> [])"

text \<open>\<^verbatim>\<open>a || b\<close> on strings: the empty string is the only falsy one.\<close>

definition or_str :: "jsstring \<Rightarrow> jsstring \<Rightarrow> jsstring" where
  "or_str a b = (if a \<noteq> [] then a else b)"

text \<open>\<^verbatim>\<open>a || b\<close> where either side is a string or undefined (\<open>None\<close>).\<close>

definition or_opt :: "jsstring option \<Rightarrow> jsstring option \<Rightarrow> jsstring option" where
  "or_opt a b = (case a of Some s \<Rightarrow> if s \<noteq> [] then Some s else b | None \<Rightarrow> b)"

text \<open>
  \<^verbatim>\<open>companyName\<close> (lines 79-83). Every read of the chain is made here before the
  \<^verbatim>\<open>||\<close> chain picks one; a read throws only when \<open>analysisData\<close> itself is undefined
  or null, in which case the first read already throws.
\<close>

definition companyName :: "jsval \<Rightarrow> jserr + jsstring" where
  "companyName analysisData =
     ebind (namesMeta analysisData) (\<lambda>nm.
     ebind (getprop nm (js ''company'')) (\<lambda>company.
     ebind (getprop analysisData (js ''metadata'')) (\<lambda>metadata.
     ebind (company_overview analysisData) (\<lambda>overview.
       Inr (or_str (coerce company)
           (or_str (coerce (optprop metadata (js ''company_legal_name'')))
           (or_str (coerce (optprop metadata (js ''company_name'')))
                   (coerce (optprop overview (js ''name''))))))))))"

text \<open>
  \<^verbatim>\<open>trimmed.replace(/\s+/g, ' ')\<close>: each maximal run of white space becomes one space.
\<close>

function replace_spaces :: "jsstring \<Rightarrow> jsstring" where
  "replace_spaces [] = []"
| "replace_spaces (c # cs) =
     (if is_space c then 32 # replace_spaces (dropWhile is_space cs)
      else c # replace_spaces cs)"
  by pat_completeness auto
termination
  by (relation "measure length") (auto simp: length_dropWhile_le less_Suc_eq_le)

text \<open>\<^verbatim>\<open>s.split(' ')\<close>: the pieces between single spaces, empty pieces included.\<close>

function split_space :: "jsstring \<Rightarrow> jsstring list" where
  "split_space s =
     (case dropWhile (\<lambda>c. c \<noteq> 32) s of
        [] \<Rightarrow> [s]
      | sep # rest \<Rightarrow> takeWhile (\<lambda>c. c \<noteq> 32) s # split_space rest)"
  by pat_completeness auto
termination
proof (relation "measure length")
  show "wf (measure length)" by simp
next
  fix s :: jsstring and sep rest
  assume "dropWhile (\<lambda>c. c \<noteq> 32) s = sep # rest"
  then have "length (sep # rest) \<le> length s"
    using length_dropWhile_le [of "\<lambda>c. c \<noteq> 32" s] by simp
  then show "(rest, s) \<in> measure length" by simp
qed

declare split_space.simps [simp del]

text \<open>\<^verbatim>\<open>sanitizeProductName\<close> (lines 85-96); \<open>None\<close> is \<^verbatim>\<open>undefined\<close>.\<close>

definition sanitizeProductName :: "jsstring \<Rightarrow> jsstring option" where
  "sanitizeProductName v =
     (let trimmed = trim v in
      if trimmed = [] then None
      else
        let normalized = replace_spaces trimmed;
            wordCount = length (split_space normalized)
        in if length normalized > 60 \<or> wordCount > 6 then None else Some normalized)"

definition rawProductName :: "jsval \<Rightarrow> jserr + jsstring" where
  "rawProductName analysisData =
     ebind (namesMeta analysisData) (\<lambda>nm.
     ebind (getprop nm (js ''product'')) (\<lambda>product.
     ebind (getprop analysisData (js ''metadata'')) (\<lambda>metadata.
       Inr (or_str (coerce product)
           (or_str (coerce (optprop metadata (js ''product_name''))) [])))))"

definition memoProductCandidate :: "jsval \<Rightarrow> jserr + jsstring" where
  "memoProductCandidate analysisData =
     ebind (company_overview analysisData) (\<lambda>overview.
       Inr (coerce (optprop overview (js ''technology''))))"

definition productName :: "jsval \<Rightarrow> jserr + jsstring option" where
  "productName analysisData =
     ebind (rawProductName analysisData) (\<lambda>raw.
     ebind (memoProductCandidate analysisData) (\<lambda>memo.
       Inr (or_opt (sanitizeProductName raw)
                   (if memo \<noteq> [] then sanitizeProductName memo else None))))"

definition displayName :: "jsval \<Rightarrow> jserr + jsstring" where
  "displayName analysisData =
     ebind (namesMeta analysisData) (\<lambda>nm.
     ebind (getprop nm (js ''display'')) (\<lambda>display.
     ebind (getprop analysisData (js ''metadata'')) (\<lambda>metadata.
     ebind (companyName analysisData) (\<lambda>company.
     ebind (productName analysisData) (\<lambda>product.
       Inr (or_str (coerce display)
           (or_str (coerce (optprop metadata (js ''display_name'')))
           (or_str company
           (case product of
              Some p \<Rightarrow> or_str p (js ''the company'')
            | None \<Rightarrow> js ''the company'')))))))))"

text \<open>
  \<^verbatim>\<open>showProduct\<close> (lines 116-118). \<open>String_toLowerCase\<close> is the built-in
  \<^verbatim>\<open>String.prototype.toLowerCase\<close>, with its full Unicode case mapping, as a parameter.
\<close>

definition showProduct :: "(jsstring \<Rightarrow> jsstring) \<Rightarrow> jsval \<Rightarrow> jserr + bool" where
  "showProduct String_toLowerCase analysisData =
     ebind (companyName analysisData) (\<lambda>company.
     ebind (productName analysisData) (\<lambda>product.
       Inr (case product of
              None \<Rightarrow> False
            | Some p \<Rightarrow>
                p \<noteq> [] \<and>
                (company = [] \<or> String_toLowerCase p \<noteq> String_toLowerCase company))))"

definition combinedName :: "(jsstring \<Rightarrow> jsstring) \<Rightarrow> jsval \<Rightarrow> jserr + jsstring" where
  "combinedName String_toLowerCase analysisData =
     ebind (companyName analysisData) (\<lambda>company.
     ebind (productName analysisData) (\<lambda>product.
     ebind (displayName analysisData) (\<lambda>display.
     ebind (showProduct String_toLowerCase analysisData) (\<lambda>sp.
       Inr (if sp then
              or_str company display @ js '' (Product: '' @
              (case product of Some p \<Rightarrow> p | None \<Rightarrow> js ''undefined'') @ js '')''
            else or_str company display)))))"

section \<open>founderEmails\<close>

text \<open>
  The memo's state (lines 122-136): the set \<open>seen\<close> of lower-cased keys and the array
  \<open>ordered\<close>.
\<close>

record harvest_state =
  seen :: "jsstring set"
  ordered :: "jsstring list"

definition push :: "jsstring \<Rightarrow> harvest_state \<Rightarrow> harvest_state" where
  "push email st =
     (let trimmed = trim email in
      if trimmed = [] then st
      else
        let key = toLowerCase trimmed in
        if key \<in> seen st then st
        else st\<lparr>seen := insert key (seen st), ordered := ordered st @ [trimmed]\<rparr>)"

definition harvest :: "jsval \<Rightarrow> harvest_state \<Rightarrow> harvest_state" where
  "harvest v st = collectEmails v push st"

text \<open>
  \<^verbatim>\<open>founderEmails\<close> (lines 121-157). The three metadata fields are read only when
  \<open>metadata\<close> is truthy.
\<close>

definition founderEmails :: "(jsstring \<Rightarrow> jserr + jsval) \<Rightarrow> jsval \<Rightarrow> jserr + jsstring list" where
  "founderEmails JSON_parse analysisData =
     ebind (publicData JSON_parse analysisData) (\<lambda>pd.
     ebind (getprop analysisData (js ''metadata'')) (\<lambda>metadata.
     ebind (if truthy metadata then
              ebind (getprop metadata (js ''founder_emails'')) (\<lambda>fe.
              ebind (getprop metadata (js ''contact_email'')) (\<lambda>ce.
              ebind (getprop metadata (js ''founder_contacts'')) (\<lambda>fc.
                Inr (harvest fc (harvest ce (harvest fe \<lparr>seen = {}, ordered = []\<rparr>))))))
            else Inr \<lparr>seen = {}, ordered = []\<rparr>) (\<lambda>st3.
     ebind (company_overview analysisData) (\<lambda>overview.
     ebind (getprop analysisData (js ''memo'')) (\<lambda>memo.
       Inr (ordered
             (harvest pd
             (harvest (optprop memo (js ''draft_v1''))
             (harvest (optprop overview (js ''founders'')) st3)))))))))"

section \<open>The mail link\<close>

text \<open>\<^verbatim>\<open>Array.prototype.join\<close> on an array of strings.\<close>

fun join_with :: "jsstring \<Rightarrow> jsstring list \<Rightarrow> jsstring" where
  "join_with sep [] = []"
| "join_with sep [x] = x"
| "join_with sep (x # y # ys) = x @ sep @ join_with sep (y # ys)"

text \<open>\<^verbatim>\<open>mailSubject\<close> (line 159); the dash is U+2013.\<close>

definition mailSubject :: "(jsstring \<Rightarrow> jsstring) \<Rightarrow> jsval \<Rightarrow> jserr + jsstring" where
  "mailSubject String_toLowerCase analysisData =
     ebind (combinedName String_toLowerCase analysisData) (\<lambda>combined.
       Inr (js ''Intro call request '' @ [8211] @ js '' '' @ combined))"

definition productLabel :: "jsval \<Rightarrow> jserr + jsstring" where
  "productLabel analysisData =
     ebind (productName analysisData) (\<lambda>product.
       Inr (case product of
              Some p \<Rightarrow> or_str p (js ''your product'')
            | None \<Rightarrow> js ''your product''))"

definition fallbackCompany :: "jsval \<Rightarrow> jserr + jsstring" where
  "fallbackCompany analysisData =
     ebind (companyName analysisData) (\<lambda>company.
     ebind (displayName analysisData) (\<lambda>display.
     ebind (productName analysisData) (\<lambda>product.
       Inr (or_str company
           (or_str display
           (case product of
              Some p \<Rightarrow> or_str p (js ''your company'')
            | None \<Rightarrow> js ''your company''))))))"

definition mailBody :: "jsval \<Rightarrow> jserr + jsstring" where
  "mailBody analysisData =
     ebind (fallbackCompany analysisData) (\<lambda>companyLabel.
     ebind (productLabel analysisData) (\<lambda>pLabel.
       Inr (join_with [10]
             [js ''Hi,'',
              [],
              js ''I'd love to schedule time to discuss about ('' @ pLabel @
                js '') from your company ('' @ companyLabel @ js '').'',
              js ''Are you available for a 30-minute call this week to cover product traction, go-to-market, and financial plans?'',
              [],
              js ''Looking forward to the conversation.'',
              [],
              js ''Best regards,'',
              js ''[Your Name]''])))"

text \<open>
  \<^verbatim>\<open>URLSearchParams\<close> is a list of name-value pairs. \<^verbatim>\<open>set\<close> overwrites the first pair
  of that name and removes the others, or appends a new pair.
\<close>

type_synonym url_params = "(jsstring \<times> jsstring) list"

fun set_first :: "jsstring \<Rightarrow> jsstring \<Rightarrow> url_params \<Rightarrow> url_params" where
  "set_first n v [] = []"
| "set_first n v (p # ps) =
     (if fst p = n then (n, v) # filter (\<lambda>q. fst q \<noteq> n) ps else p # set_first n v ps)"

definition params_set :: "jsstring \<Rightarrow> jsstring \<Rightarrow> url_params \<Rightarrow> url_params" where
  "params_set n v ps = (if n \<in> fst ` set ps then set_first n v ps else ps @ [(n, v)])"

text \<open>
  \<^verbatim>\<open>toString\<close> serializes as \<^verbatim>\<open>application/x-www-form-urlencoded\<close>: each name and
  value is encoded in UTF-8 (a surrogate pair is one code point, a lone surrogate becomes
  U+FFFD), then every byte other than an ASCII letter or digit and \<^verbatim>\<open>* - . _\<close> is written
  as \<^verbatim>\<open>%XX\<close>, a space as \<^verbatim>\<open>+\<close>.
\<close>

definition is_high_surrogate :: "nat \<Rightarrow> bool" where
  "is_high_surrogate c \<longleftrightarrow> 55296 \<le> c \<and> c \<le> 56319"

definition is_low_surrogate :: "nat \<Rightarrow> bool" where
  "is_low_surrogate c \<longleftrightarrow> 56320 \<le> c \<and> c \<le> 57343"

definition utf8_of_code_point :: "nat \<Rightarrow> nat list" where
  "utf8_of_code_point cp =
     (if cp < 128 then [cp]
      else if cp < 2048 then [192 + cp div 64, 128 + cp mod 64]
      else if cp < 65536 then [224 + cp div 4096, 128 + (cp div 64) mod 64, 128 + cp mod 64]
      else [240 + cp div 262144, 128 + (cp div 4096) mod 64, 128 + (cp div 64) mod 64,
            128 + cp mod 64])"

fun utf8_encode :: "jsstring \<Rightarrow> nat list" where
  "utf8_encode [] = []"
| "utf8_encode [c] =
     utf8_of_code_point (if is_high_surrogate c \<or> is_low_surrogate c then 65533 else c)"
| "utf8_encode (c # d # cs) =
     (if is_high_surrogate c \<and> is_low_surrogate d then
        utf8_of_code_point (65536 + (c - 55296) * 1024 + (d - 56320)) @ utf8_encode cs
      else
        utf8_of_code_point (if is_high_surrogate c \<or> is_low_surrogate c then 65533 else c) @
        utf8_encode (d # cs))"

definition hex_digit :: "nat \<Rightarrow> nat" where
  "hex_digit n = (if n < 10 then 48 + n else 55 + n)"

definition url_safe :: "nat \<Rightarrow> bool" where
  "url_safe b \<longleftrightarrow> is_alpha b \<or> is_digit b \<or> b = 42 \<or> b = 45 \<or> b = 46 \<or> b = 95"

definition encode_byte :: "nat \<Rightarrow> jsstring" where
  "encode_byte b =
     (if b = 32 then [43]
      else if url_safe b then [b]
      else [37, hex_digit (b div 16), hex_digit (b mod 16)])"

definition urlencode :: "jsstring \<Rightarrow> jsstring" where
  "urlencode s = concat (map encode_byte (utf8_encode s))"

definition params_toString :: "url_params \<Rightarrow> jsstring" where
  "params_toString ps = join_with [38] (map (\<lambda>p. urlencode (fst p) @ [61] @ urlencode (snd p)) ps)"

text \<open>\<^verbatim>\<open>gmailParams\<close> and \<^verbatim>\<open>gmailLink\<close> (lines 175-184), as functions of the subject, the
  body and the harvested emails.\<close>

definition gmailParams :: "jsstring \<Rightarrow> jsstring \<Rightarrow> jsstring list \<Rightarrow> url_params" where
  "gmailParams subject body emails =
     (let params = [(js ''view'', js ''cm''), (js ''fs'', js ''1''),
                    (js ''su'', subject), (js ''body'', body)]
      in if length emails > 0 then params_set (js ''to'') (join_with [44] emails) params
         else params)"

definition gmailLink :: "jsstring \<Rightarrow> jsstring \<Rightarrow> jsstring list \<Rightarrow> jsstring" where
  "gmailLink subject body emails =
     js ''https://mail.google.com/mail/?'' @ params_toString (gmailParams subject body emails)"

text \<open>The link of the rendered component, from the analysis record.\<close>

definition component_gmailLink ::
  "(jsstring \<Rightarrow> jserr + jsval) \<Rightarrow> (jsstring \<Rightarrow> jsstring) \<Rightarrow> jsval \<Rightarrow> jserr + jsstring" where
  "component_gmailLink JSON_parse String_toLowerCase analysisData =
     ebind (founderEmails JSON_parse analysisData) (\<lambda>emails.
     ebind (mailSubject String_toLowerCase analysisData) (\<lambda>subject.
     ebind (mailBody analysisData) (\<lambda>body.
       Inr (gmailLink subject body emails))))"

section \<open>Rendering a message\<close>

datatype span = PlainText jsstring | Emphasis jsstring

datatype block = Paragraph "span list" | BulletList "span list list"

text \<open>The dot of a regular expression matches any code unit but the line terminators.\<close>

definition is_line_terminator :: "nat \<Rightarrow> bool" where
  "is_line_terminator c \<longleftrightarrow> c = 10 \<or> c = 13 \<or> c = 8232 \<or> c = 8233"

definition startsWith :: "jsstring \<Rightarrow> jsstring \<Rightarrow> bool" where
  "startsWith s p \<longleftrightarrow> take (length p) s = p"

definition endsWith :: "jsstring \<Rightarrow> jsstring \<Rightarrow> bool" where
  "endsWith s p \<longleftrightarrow> length p \<le> length s \<and> drop (length s - length p) s = p"

text \<open>
  \<^verbatim>\<open>/(\*\*_.+?_\*\*)/g\<close>. \<open>lazy_body s\<close> is the lazy \<^verbatim>\<open>.+?\<close> after its first character:
  it stops at the first place where \<^verbatim>\<open>_**\<close> follows, and fails at a line terminator or
  at the end. \<open>emphasis_at s\<close> is one attempt of the pattern at the start of \<open>s\<close> and
  returns the text between the markers.
\<close>

fun lazy_body :: "jsstring \<Rightarrow> jsstring option" where
  "lazy_body [] = None"
| "lazy_body (c # r) =
     (if startsWith (c # r) [95, 42, 42] then Some []
      else if is_line_terminator c then None
      else map_option (\<lambda>b. c # b) (lazy_body r))"

definition emphasis_at :: "jsstring \<Rightarrow> jsstring option" where
  "emphasis_at s =
     (if startsWith s [42, 42, 95] then
        (case drop 3 s of
           [] \<Rightarrow> None
         | c # r \<Rightarrow>
             if is_line_terminator c then None
             else map_option (\<lambda>b. c # b) (lazy_body r))
      else None)"

text \<open>
  \<^verbatim>\<open>text.split(/(\*\*_.+?_\*\*)/g)\<close>: the pieces between the matches, each match (the
  capture group) after the piece it ends. \<open>piece\<close> is the text since the last match.
\<close>

function split_emphasis :: "jsstring \<Rightarrow> jsstring \<Rightarrow> jsstring list" where
  "split_emphasis piece [] = [piece]"
| "split_emphasis piece (c # cs) =
     (case emphasis_at (c # cs) of
        None \<Rightarrow> split_emphasis (piece @ [c]) cs
      | Some b \<Rightarrow>
          piece # ([42, 42, 95] @ b @ [95, 42, 42]) #
          split_emphasis [] (drop (length ([42, 42, 95] @ b @ [95, 42, 42])) (c # cs)))"
  by pat_completeness auto
termination
  by (relation "measure (\<lambda>(piece, s). length s)") auto

text \<open>\<^verbatim>\<open>segment.slice(3, -3)\<close>\<close>

definition slice_3_3 :: "jsstring \<Rightarrow> jsstring" where
  "slice_3_3 s = drop 3 (take (length s - 3) s)"

text \<open>
  \<^verbatim>\<open>renderInlineSegments\<close> (lines 186-199): the list of rendered spans; a \<^verbatim>\<open>null\<close>
  entry renders nothing and is left out.
\<close>

definition render_segment :: "jsstring \<Rightarrow> span option" where
  "render_segment segment =
     (if segment = [] then None
      else if startsWith segment [42, 42, 95] \<and> endsWith segment [95, 42, 42]
      then Some (Emphasis (slice_3_3 segment))
      else Some (PlainText segment))"

definition renderInlineSegments :: "jsstring \<Rightarrow> span list" where
  "renderInlineSegments t = List.map_filter render_segment (split_emphasis [] t)"

text \<open>\<^verbatim>\<open>text.split(/\r?\n/)\<close>\<close>

fun split_lines :: "jsstring \<Rightarrow> jsstring \<Rightarrow> jsstring list" where
  "split_lines piece [] = [piece]"
| "split_lines piece [c] = (if c = 10 then [piece, []] else [piece @ [c]])"
| "split_lines piece (c # d # cs) =
     (if c = 13 \<and> d = 10 then piece # split_lines [] cs
      else if c = 10 then piece # split_lines [] (d # cs)
      else split_lines (piece @ [c]) (d # cs))"

text \<open>The state of \<^verbatim>\<open>renderMessageContent\<close>: the array \<open>nodes\<close> and \<open>listBuffer\<close>.\<close>

record render_state =
  nodes :: "block list"
  listBuffer :: "jsstring list"

definition flushList :: "render_state \<Rightarrow> render_state" where
  "flushList st =
     (if length (listBuffer st) = 0 then st
      else st\<lparr>nodes := nodes st @ [BulletList (map renderInlineSegments (listBuffer st))],
              listBuffer := []\<rparr>)"

text \<open>The body of \<^verbatim>\<open>lines.forEach((line, idx) => ...)\<close>; \<open>n\<close> is \<^verbatim>\<open>lines.length\<close>.\<close>

definition render_line :: "nat \<Rightarrow> jsstring \<Rightarrow> nat \<Rightarrow> render_state \<Rightarrow> render_state" where
  "render_line n line idx st =
     (if startsWith line [8226] then
        let st1 = st\<lparr>listBuffer := listBuffer st @ [trim (drop 1 line)]\<rparr>
        in if idx = n - 1 then flushList st1 else st1
      else
        let st1 = flushList st
        in st1\<lparr>nodes := nodes st1 @ [Paragraph (renderInlineSegments line)]\<rparr>)"

fun forEach_line :: "nat \<Rightarrow> nat \<Rightarrow> jsstring list \<Rightarrow> render_state \<Rightarrow> render_state" where
  "forEach_line n idx [] st = st"
| "forEach_line n idx (line # rest) st = forEach_line n (Suc idx) rest (render_line n line idx st)"

text \<open>\<^verbatim>\<open>renderMessageContent\<close> (lines 201-241): the blocks of the rendered message.\<close>

definition message_lines :: "jsstring \<Rightarrow> jsstring list" where
  "message_lines t = filter (\<lambda>line. length line > 0) (map trim (split_lines [] t))"

definition renderMessageContent :: "jsstring \<Rightarrow> block list" where
  "renderMessageContent t =
     (let lines = message_lines t in
      if length lines = 0 then [Paragraph [PlainText t]]
      else nodes (flushList (forEach_line (length lines) 0 lines \<lparr>nodes = [], listBuffer = []\<rparr>)))"

section \<open>The conversation\<close>

datatype role = User | Model

record message =
  role :: role
  content :: jsstring

text \<open>The three state variables of the component.\<close>

record chat_state =
  messages :: "message list"
  input :: jsstring
  isLoading :: bool

text \<open>
  The request to the interview service. The service and \<^verbatim>\<open>JSON.stringify\<close> are
  parameters: each returns its result or throws.
\<close>

record interviewer_input =
  input_analysisData :: jsstring
  input_history :: "message list"

type_synonym interviewer = "interviewer_input \<Rightarrow> jserr + jsstring"

text \<open>
  \<^verbatim>\<open>getInitialBotMessage\<close> (lines 243-257), run to completion. \<open>Inl\<close> would be a rejected
  promise.
\<close>

definition getInitialBotMessage ::
  "(jsval \<Rightarrow> jserr + jsstring) \<Rightarrow> interviewer \<Rightarrow> jsval \<Rightarrow> chat_state \<Rightarrow> jserr + chat_state" where
  "getInitialBotMessage JSON_stringify interviewStartup analysisData st =
     (let st1 = st\<lparr>isLoading := True\<rparr>;
          attempt = ebind (JSON_stringify analysisData) (\<lambda>serialized.
                    ebind (interviewStartup \<lparr>input_analysisData = serialized, input_history = []\<rparr>)
                      (\<lambda>result. Inr (st1\<lparr>messages := [\<lparr>role = Model, content = result\<rparr>]\<rparr>)));
          st2 = (case attempt of
                   Inr st' \<Rightarrow> st'
                 | Inl e \<Rightarrow>
                     st1\<lparr>messages := [\<lparr>role = Model, content =
                       js ''Sorry, I am having trouble starting the conversation. Please try refreshing.''\<rparr>]\<rparr>)
      in Inr (st2\<lparr>isLoading := False\<rparr>))"

text \<open>\<^verbatim>\<open>handleSendMessage\<close> (lines 274-294), run to completion.\<close>

definition handleSendMessage ::
  "(jsval \<Rightarrow> jserr + jsstring) \<Rightarrow> interviewer \<Rightarrow> jsval \<Rightarrow> chat_state \<Rightarrow> jserr + chat_state" where
  "handleSendMessage JSON_stringify interviewStartup analysisData st =
     (if trim (input st) = [] then Inr st
      else
        let userMessage = \<lparr>role = User, content = input st\<rparr>;
            newMessages = messages st @ [userMessage];
            st1 = st\<lparr>messages := newMessages, input := [], isLoading := True\<rparr>;
            attempt = ebind (JSON_stringify analysisData) (\<lambda>serialized.
                    interviewStartup \<lparr>input_analysisData = serialized,
                                      input_history = newMessages\<rparr>);
            st2 = (case attempt of
                     Inr result \<Rightarrow>
                       st1\<lparr>messages := messages st1 @ [\<lparr>role = Model, content = result\<rparr>]\<rparr>
                   | Inl e \<Rightarrow>
                       st1\<lparr>messages := messages st1 @ [\<lparr>role = Model, content =
                         js ''Sorry, something went wrong. Please try again.''\<rparr>]\<rparr>)
        in Inr (st2\<lparr>isLoading := False\<rparr>))"

text \<open>
  The input's key handler (line 349):
  \<^verbatim>\<open>e.key === 'Enter' && !isLoading && handleSendMessage()\<close>.
\<close>

definition onKeyDown ::
  "(jsval \<Rightarrow> jserr + jsstring) \<Rightarrow> interviewer \<Rightarrow> jsval \<Rightarrow> jsstring \<Rightarrow> chat_state \<Rightarrow> jserr + chat_state" where
  "onKeyDown JSON_stringify interviewStartup analysisData key st =
     (if key = js ''Enter'' \<and> \<not> isLoading st
      then handleSendMessage JSON_stringify interviewStartup analysisData st
      else Inr st)"

text \<open>
  Modelled from the spec: the \<^verbatim>\<open>Button\<close> component (\<^verbatim>\<open>@/components/ui/button\<close>) is
  missing from the sources. Its use at line 353,
  \<^verbatim>\<open><Button onClick={handleSendMessage} disabled={isLoading || !input.trim()}>\<close>, is taken
  to run the click handler unless \<open>disabled\<close> holds: that is how a send is a no-op while
  a request is in flight.
\<close>

definition sendButton_disabled :: "chat_state \<Rightarrow> bool" where
  "sendButton_disabled st \<longleftrightarrow> isLoading st \<or> trim (input st) = []"

definition onClick ::
  "(jsval \<Rightarrow> jserr + jsstring) \<Rightarrow> interviewer \<Rightarrow> jsval \<Rightarrow> chat_state \<Rightarrow> jserr + chat_state" where
  "onClick JSON_stringify interviewStartup analysisData st =
     (if sendButton_disabled st then Inr st
      else handleSendMessage JSON_stringify interviewStartup analysisData st)"

section \<open>Specification-level notions\<close>

subsection \<open>The harvest\<close>

text \<open>
  \<open>first_seen\<close> keeps, of a sequence of addresses, each one whose lower-cased form has
  not occurred before it: first-seen casing, first-seen position.
\<close>

fun first_seen :: "jsstring list \<Rightarrow> jsstring list" where
  "first_seen [] = []"
| "first_seen (x # xs) = x # first_seen (filter (\<lambda>y. toLowerCase y \<noteq> toLowerCase x) xs)"

text \<open>The matches of the email pattern in a value, in the order of the traversal.\<close>

fun emails_of :: "jsval \<Rightarrow> jsstring list" where
  "emails_of (JStr s) = scan_EMAIL_REGEX s"
| "emails_of (JArr xs) = concat (map emails_of xs)"
| "emails_of (JObj kvs) = concat (map (\<lambda>kv. emails_of (snd kv)) kvs)"
| "emails_of v = []"

text \<open>
  The six values the harvest visits, in order: the three metadata fields, the founders of
  the company overview, the whole first memo draft, the normalized public data.
\<close>

definition harvest_sources :: "(jsstring \<Rightarrow> jserr + jsval) \<Rightarrow> jsval \<Rightarrow> jsval list" where
  "harvest_sources JSON_parse analysisData =
     (let metadata = optprop analysisData (js ''metadata'');
          draft = optprop (optprop analysisData (js ''memo'')) (js ''draft_v1'')
      in [optprop metadata (js ''founder_emails''),
          optprop metadata (js ''contact_email''),
          optprop metadata (js ''founder_contacts''),
          optprop (optprop draft (js ''company_overview'')) (js ''founders''),
          draft,
          publicData_of JSON_parse (optprop analysisData (js ''public_data''))])"

text \<open>
  The source list as the specification words it, with the whole company-overview object
  in fifth place.
\<close>

definition spec_sources :: "(jsstring \<Rightarrow> jserr + jsval) \<Rightarrow> jsval \<Rightarrow> jsval list" where
  "spec_sources JSON_parse analysisData =
     (let metadata = optprop analysisData (js ''metadata'');
          overview = optprop (optprop (optprop analysisData (js ''memo'')) (js ''draft_v1''))
                       (js ''company_overview'')
      in [optprop metadata (js ''founder_emails''),
          optprop metadata (js ''contact_email''),
          optprop metadata (js ''founder_contacts''),
          optprop overview (js ''founders''),
          overview,
          publicData_of JSON_parse (optprop analysisData (js ''public_data''))])"

text \<open>\<open>found_in e v\<close>: the address \<open>e\<close> occurs in the value \<open>v\<close>, in any casing.\<close>

definition found_in :: "jsstring \<Rightarrow> jsval \<Rightarrow> bool" where
  "found_in e v \<longleftrightarrow> toLowerCase e \<in> toLowerCase ` set (emails_of v)"

text \<open>\<open>first_found e i srcs\<close>: source \<open>i\<close> is the first of \<open>srcs\<close> in which \<open>e\<close> occurs.\<close>

definition first_found :: "jsstring \<Rightarrow> nat \<Rightarrow> jsval list \<Rightarrow> bool" where
  "first_found e i srcs \<longleftrightarrow> found_in e (srcs ! i) \<and> (\<forall>k<i. \<not> found_in e (srcs ! k))"

text \<open>\<open>precedes x y xs\<close>: \<open>y\<close> occurs in \<open>xs\<close> after the first occurrence of \<open>x\<close>.\<close>

definition precedes :: "'a \<Rightarrow> 'a \<Rightarrow> 'a list \<Rightarrow> bool" where
  "precedes x y xs \<longleftrightarrow> y \<in> set (drop 1 (dropWhile (\<lambda>z. z \<noteq> x) xs))"

text \<open>A JSON parser that rejects every text, for records without textual public data.\<close>

definition parse_fails :: "jsstring \<Rightarrow> jserr + jsval" where
  "parse_fails s = Inl SyntaxError"

subsection \<open>Names\<close>

text \<open>
  The words of a string: its maximal runs of characters that are not white space.
\<close>

function ws_words :: "jsstring \<Rightarrow> jsstring list" where
  "ws_words s =
     (case dropWhile is_space s of
        [] \<Rightarrow> []
      | c # cs \<Rightarrow>
          takeWhile (\<lambda>x. \<not> is_space x) (c # cs) # ws_words (dropWhile (\<lambda>x. \<not> is_space x) cs))"
  by pat_completeness auto
termination
proof (relation "measure length")
  show "wf (measure length)" by simp
next
  fix s :: jsstring and c cs
  assume a: "dropWhile is_space s = c # cs"
  have "length (dropWhile (\<lambda>x. \<not> is_space x) cs) \<le> length cs"
    by (rule length_dropWhile_le)
  moreover have "length (c # cs) \<le> length s"
    using length_dropWhile_le [of is_space s] a by simp
  ultimately show "(dropWhile (\<lambda>x. \<not> is_space x) cs, s) \<in> measure length" by simp
qed

declare ws_words.simps [simp del]

text \<open>
  The product name as the specification words it: the first of the two candidates that
  passes sanitization, else the sanitized technology field.
\<close>

definition spec_productName :: "jsval \<Rightarrow> jsstring option" where
  "spec_productName analysisData =
     (let metadata = optprop analysisData (js ''metadata'');
          names = optprop metadata (js ''names'');
          overview = optprop (optprop (optprop analysisData (js ''memo'')) (js ''draft_v1''))
                       (js ''company_overview'')
      in case sanitizeProductName (coerce (optprop names (js ''product''))) of
           Some p \<Rightarrow> Some p
         | None \<Rightarrow>
             (case sanitizeProductName (coerce (optprop metadata (js ''product_name''))) of
                Some p \<Rightarrow> Some p
              | None \<Rightarrow> sanitizeProductName (coerce (optprop overview (js ''technology'')))))"

text \<open>The first non-empty of the two trimmed product-name candidates.\<close>

definition first_product_candidate :: "jsval \<Rightarrow> jsstring" where
  "first_product_candidate analysisData =
     (let metadata = optprop analysisData (js ''metadata'');
          product = coerce (optprop (optprop metadata (js ''names'')) (js ''product''))
      in if product \<noteq> [] then product else coerce (optprop metadata (js ''product_name'')))"

subsection \<open>Blocks\<close>

text \<open>
  The blocks of a list of lines: each maximal run of bullet lines is one list of their
  items, each other line a paragraph.
\<close>

definition is_bullet :: "jsstring \<Rightarrow> bool" where
  "is_bullet line \<longleftrightarrow> startsWith line [8226]"

definition bullet_item :: "jsstring \<Rightarrow> span list" where
  "bullet_item line = renderInlineSegments (trim (drop 1 line))"

function blocks_of :: "jsstring list \<Rightarrow> block list" where
  "blocks_of [] = []"
| "blocks_of (l # ls) =
     (if is_bullet l then
        BulletList (map bullet_item (l # takeWhile is_bullet ls)) # blocks_of (dropWhile is_bullet ls)
      else Paragraph (renderInlineSegments l) # blocks_of ls)"
  by pat_completeness auto
termination
  by (relation "measure length") (auto simp: length_dropWhile_le less_Suc_eq_le)

section \<open>Example records\<close>

text \<open>\<^verbatim>\<open>{metadata: {founder_emails: "a@x.com", contact_email: "A@X.com"}}\<close>\<close>

definition record_two_casings :: jsval where
  "record_two_casings =
     JObj [(js ''metadata'', JObj [(js ''founder_emails'', JStr (js ''a@x.com'')),
                                  (js ''contact_email'', JStr (js ''A@X.com''))])]"

text \<open>\<^verbatim>\<open>{memo: {draft_v1: {team: "x@y.com"}}}\<close>\<close>

definition record_draft_team :: jsval where
  "record_draft_team =
     JObj [(js ''memo'', JObj [(js ''draft_v1'', JObj [(js ''team'', JStr (js ''x@y.com''))])])]"

text \<open>\<^verbatim>\<open>{metadata: {founder_emails: "a@x.com"}, memo: {draft_v1: {team: "x@y.com"}}}\<close>\<close>

definition record_two_sources :: jsval where
  "record_two_sources =
     JObj [(js ''metadata'', JObj [(js ''founder_emails'', JStr (js ''a@x.com''))]),
           (js ''memo'', JObj [(js ''draft_v1'', JObj [(js ''team'', JStr (js ''x@y.com''))])])]"

text \<open>
  \<^verbatim>\<open>{metadata: {names: {product: "a b c d e f g"}, product_name: "Acme"}}\<close>: a first
  candidate of seven words and a second of one.
\<close>

definition record_long_product :: jsval where
  "record_long_product =
     JObj [(js ''metadata'',
            JObj [(js ''names'', JObj [(js ''product'', JStr (js ''a b c d e f g''))]),
                  (js ''product_name'', JStr (js ''Acme''))])]"

text \<open>The fixed apology of \<^verbatim>\<open>getInitialBotMessage\<close> (line 253).\<close>

definition apology :: jsstring where
  "apology = js ''Sorry, I am having trouble starting the conversation. Please try refreshing.''"

text \<open>
  Stand-ins for the two parameters of the conversation: a serializer that returns
  \<^verbatim>\<open>{}\<close>, a service that is down and one that answers \<^verbatim>\<open>ok\<close>; and three states of
  the component.
\<close>

definition stringify_braces :: "jsval \<Rightarrow> jserr + jsstring" where
  "stringify_braces v = Inr (js ''{}'')"

definition service_down :: interviewer where
  "service_down request = Inl ServiceError"

definition service_ok :: interviewer where
  "service_ok request = Inr (js ''ok'')"

definition state_mounting :: chat_state where
  "state_mounting = \<lparr>messages = [], input = [], isLoading = True\<rparr>"

definition state_busy_typed :: chat_state where
  "state_busy_typed = \<lparr>messages = [], input = js ''hi'', isLoading = True\<rparr>"

definition state_blank_input :: chat_state where
  "state_blank_input = \<lparr>messages = [\<lparr>role = Model, content = js ''Hello''\<rparr>], input = js ''   '', isLoading = False\<rparr>"

text \<open>
  The reply of three lines: two bullet lines, \<^verbatim>\<open>one\<close> and \<^verbatim>\<open>two\<close>, and the line
  \<^verbatim>\<open>plain line\<close>. The bullet marker is U+2022, the line break U+000A.
\<close>

definition reply_bullets_then_plain :: jsstring where
  "reply_bullets_then_plain =
     [8226] @ js '' one'' @ [10] @ [8226] @ js '' two'' @ [10] @ js ''plain line''"

section \<open>The email pattern: what a match looks like\<close>

lemmas class_defs = is_local_def is_domain_def is_alpha_def is_digit_def is_space_def

lemmas trim_defs = trim_def trimStart_def trimEnd_def

lemma take_le_takeWhile: "j \<le> length (takeWhile P s) \<Longrightarrow> \<forall>c\<in>set (take j s). P c"
proof (induction s arbitrary: j)
  case Nil then show ?case by simp
next
  case (Cons a s)
  then show ?case by (cases j) (auto split: if_splits)
qed

lemma match_tld_Some:
  "match_tld s = Some t \<Longrightarrow> t = takeWhile is_alpha s \<and> 2 \<le> length t"
  by (auto simp: match_tld_def Let_def split: if_splits)

lemma match_domain_Some:
  "match_domain k s = Some d \<Longrightarrow>
   \<exists>j rest. 0 < j \<and> j \<le> k \<and> drop j s = 46 # rest \<and> 2 \<le> length (takeWhile is_alpha rest) \<and>
     d = take j s @ [46] @ takeWhile is_alpha rest"
proof (induction k)
  case 0 then show ?case by simp
next
  case (Suc k)
  show ?case
  proof (cases "\<exists>rest. drop (Suc k) s = 46 # rest \<and> match_tld rest \<noteq> None")
    case True
    then obtain rest t where r: "drop (Suc k) s = 46 # rest" "match_tld rest = Some t" by auto
    with Suc.prems have "d = take (Suc k) s @ [46] @ t" by simp
    with r match_tld_Some[OF r(2)] show ?thesis by (intro exI[of _ "Suc k"] exI[of _ rest]) auto
  next
    case False
    with Suc.prems have "match_domain k s = Some d"
      by (auto split: list.splits if_splits option.splits)
    from Suc.IH[OF this] obtain j rest where
      "0 < j" "j \<le> k" "drop j s = 46 # rest" "2 \<le> length (takeWhile is_alpha rest)"
      "d = take j s @ [46] @ takeWhile is_alpha rest" by blast
    then show ?thesis by (intro exI[of _ j] exI[of _ rest]) auto
  qed
qed

lemma match_local_Some:
  "match_local k s = Some m \<Longrightarrow>
   \<exists>j rest d. 0 < j \<and> j \<le> k \<and> drop j s = 64 # rest \<and>
     match_domain (length (takeWhile is_domain rest)) rest = Some d \<and>
     m = take j s @ [64] @ d"
proof (induction k)
  case 0 then show ?case by simp
next
  case (Suc k)
  show ?case
  proof (cases "\<exists>rest. drop (Suc k) s = 64 # rest \<and> match_domain (length (takeWhile is_domain rest)) rest \<noteq> None")
    case True
    then obtain rest d where r: "drop (Suc k) s = 64 # rest" "match_domain (length (takeWhile is_domain rest)) rest = Some d" by auto
    with Suc.prems have "m = take (Suc k) s @ [64] @ d" by simp
    with r show ?thesis by (intro exI[of _ "Suc k"] exI[of _ rest] exI[of _ d]) simp
  next
    case False
    with Suc.prems have "match_local k s = Some m"
      by (auto split: list.splits if_splits option.splits)
    from Suc.IH[OF this] obtain j rest d where
      "0 < j" "j \<le> k" "drop j s = 64 # rest"
      "match_domain (length (takeWhile is_domain rest)) rest = Some d"
      "m = take j s @ [64] @ d" by blast
    then show ?thesis by (intro exI[of _ j] exI[of _ rest] exI[of _ d]) auto
  qed
qed

lemma EMAIL_REGEX_at_shape:
  assumes "EMAIL_REGEX_at s = Some m"
  shows "\<exists>l d t. m = l @ [64] @ d @ [46] @ t \<and> l \<noteq> [] \<and> (\<forall>c\<in>set l. is_local c) \<and>
           d \<noteq> [] \<and> (\<forall>c\<in>set d. is_domain c) \<and> 2 \<le> length t \<and> (\<forall>c\<in>set t. is_alpha c)"
proof -
  from assms obtain j rest d where j: "0 < j" "j \<le> length (takeWhile is_local s)"
      "drop j s = 64 # rest"
      "match_domain (length (takeWhile is_domain rest)) rest = Some d" "m = take j s @ [64] @ d"
    unfolding EMAIL_REGEX_at_def using match_local_Some by blast
  from match_domain_Some[OF j(4)] obtain i rest' where i: "0 < i"
      "i \<le> length (takeWhile is_domain rest)" "drop i rest = 46 # rest'"
      "2 \<le> length (takeWhile is_alpha rest')" "d = take i rest @ [46] @ takeWhile is_alpha rest'"
    by blast
  have l: "\<forall>c\<in>set (take j s). is_local c" using take_le_takeWhile[OF j(2)] .
  have dd: "\<forall>c\<in>set (take i rest). is_domain c" using take_le_takeWhile[OF i(2)] .
  have t: "\<forall>c\<in>set (takeWhile is_alpha rest'). is_alpha c" by (auto dest: set_takeWhileD)
  have "take j s \<noteq> []" using j(1,3) by (cases s) auto
  moreover have "take i rest \<noteq> []" using i(1,3) by (cases rest) auto
  moreover have "m = take j s @ [64] @ take i rest @ [46] @ takeWhile is_alpha rest'"
    using j(5) i(5) by simp
  ultimately show ?thesis using l dd t i(4) by blast
qed

lemma match_domain_back:
  assumes "d \<noteq> []" "2 \<le> length t" "\<forall>c\<in>set t. is_alpha c" "n \<le> Suc (length t)"
  shows "match_domain (length d + n) (d @ 46 # t) = Some (d @ [46] @ t)"
  using assms(4)
proof (induction n)
  case 0
  from assms(1) obtain k where k: "length d = Suc k" by (cases d) auto
  have tw: "takeWhile is_alpha t = t" using assms(3) by (simp add: takeWhile_eq_all_conv)
  have "match_tld t = Some t" unfolding match_tld_def Let_def tw using assms(2) by simp
  then show ?case unfolding k using k by simp
next
  case (Suc n)
  have "drop (Suc (length d + n)) (d @ 46 # t) = drop n t" by simp
  moreover have "drop n t = [] \<or> (\<exists>c r. drop n t = c # r \<and> c \<noteq> 46)"
  proof (cases "drop n t")
    case Nil then show ?thesis by simp
  next
    case (Cons c r)
    then have "c \<in> set t" by (metis in_set_dropD list.set_intros(1))
    with assms(3) have "is_alpha c" by blast
    then have "c \<noteq> 46" by (auto simp: is_alpha_def)
    with Cons show ?thesis by simp
  qed
  moreover have "match_domain (length d + n) (d @ 46 # t) = Some (d @ [46] @ t)"
    using Suc by simp
  ultimately show ?case by (auto simp del: drop_append)
qed

lemma alpha_domain: "is_alpha c \<Longrightarrow> is_domain c" by (simp add: is_domain_def)

lemma not_local_at: "\<not> is_local 64" by (simp add: is_local_def is_alpha_def is_digit_def)

lemma not_domain_at: "\<not> is_domain 64" by (simp add: is_domain_def is_alpha_def is_digit_def)

lemma domain_dot: "is_domain 46" by (simp add: is_domain_def)

lemma EMAIL_REGEX_at_full:
  assumes "l \<noteq> []" "\<forall>c\<in>set l. is_local c" "d \<noteq> []" "\<forall>c\<in>set d. is_domain c"
    "2 \<le> length t" "\<forall>c\<in>set t. is_alpha c"
  shows "EMAIL_REGEX_at (l @ [64] @ d @ [46] @ t) = Some (l @ [64] @ d @ [46] @ t)"
proof -
  let ?rest = "d @ 46 # t"
  have tw: "takeWhile is_local (l @ [64] @ d @ [46] @ t) = l"
    using assms(2) not_local_at by (simp add: takeWhile_append2)
  have "\<forall>c\<in>set ?rest. is_domain c" using assms(4,6) alpha_domain domain_dot by auto
  then have twd: "takeWhile is_domain ?rest = ?rest" by (simp add: takeWhile_eq_all_conv)
  have "match_domain (length d + Suc (length t)) ?rest = Some (d @ [46] @ t)"
    using match_domain_back[OF assms(3,5,6), of "Suc (length t)"] by simp
  then have md: "match_domain (length (takeWhile is_domain ?rest)) ?rest = Some ?rest"
    unfolding twd by simp
  from assms(1) obtain k where k: "length l = Suc k" by (cases l) auto
  have "match_local (Suc k) (l @ 64 # ?rest) = Some (l @ 64 # ?rest)"
    using md k by simp
  then show ?thesis unfolding EMAIL_REGEX_at_def tw using k by simp
qed

section \<open>The harvest as a fold over the discovered addresses\<close>

lemma scan_matches:
  "m \<in> set (scan_EMAIL_REGEX s) \<Longrightarrow> \<exists>s'. EMAIL_REGEX_at s' = Some m"
proof (induction s rule: scan_EMAIL_REGEX.induct)
  case 1 then show ?case by simp
next
  case (2 c cs)
  then show ?case by (cases "EMAIL_REGEX_at (c # cs)") auto
qed

lemma local_not_space: "is_local c \<Longrightarrow> \<not> is_space c"
  by (auto simp: is_local_def is_alpha_def is_digit_def is_space_def)

lemma domain_not_space: "is_domain c \<Longrightarrow> \<not> is_space c"
  by (auto simp: is_domain_def is_alpha_def is_digit_def is_space_def)

lemma no_space_trim: "\<forall>c\<in>set s. \<not> is_space c \<Longrightarrow> trim s = s"
proof -
  assume a: "\<forall>c\<in>set s. \<not> is_space c"
  have d: "\<And>xs. \<forall>c\<in>set xs. \<not> is_space c \<Longrightarrow> dropWhile is_space xs = xs"
    by (case_tac xs) auto
  show ?thesis unfolding trim_defs using a by (simp add: d)
qed

lemma match_no_space:
  assumes "EMAIL_REGEX_at s = Some m" shows "\<forall>c\<in>set m. \<not> is_space c"
proof -
  from EMAIL_REGEX_at_shape[OF assms] obtain l d t where
    m: "m = l @ [64] @ d @ [46] @ t" and l: "\<forall>c\<in>set l. is_local c"
    and d: "\<forall>c\<in>set d. is_domain c" and t: "\<forall>c\<in>set t. is_alpha c" by blast
  have "\<not> is_space 64" "\<not> is_space 46" by (simp_all add: is_space_def)
  then show ?thesis unfolding m using l d t local_not_space domain_not_space alpha_domain
    by auto
qed

lemma scan_stable:
  assumes "m \<in> set (scan_EMAIL_REGEX s)" shows "trim m = m \<and> m \<noteq> []"
proof -
  from scan_matches[OF assms] obtain s' where s': "EMAIL_REGEX_at s' = Some m" by blast
  from EMAIL_REGEX_at_shape[OF s'] have "m \<noteq> []" by auto
  with no_space_trim[OF match_no_space[OF s']] show ?thesis by simp
qed

lemma emails_of_stable: "e \<in> set (emails_of v) \<Longrightarrow> trim e = e \<and> e \<noteq> []"
proof (induction v rule: emails_of.induct)
  case (1 s) then show ?case using scan_stable by simp
qed auto

lemma fold_concat_map:
  "(\<And>x st. x \<in> set xs \<Longrightarrow> g x st = fold f (h x) st) \<Longrightarrow>
   fold g xs st = fold f (concat (map h xs)) st"
  by (induction xs arbitrary: st) auto

lemma collectEmails_fold: "collectEmails v p st = fold p (emails_of v) st"
proof (induction v p st rule: collectEmails.induct)
  case (1 s p st)
  show ?case
  proof (cases "scan_EMAIL_REGEX s")
    case Nil then show ?thesis by (simp add: match_EMAIL_REGEX_def)
  next
    case (Cons m ms)
    have "fold (\<lambda>m st'. let trimmed = trim m in if trimmed \<noteq> [] then p trimmed st' else st')
            (scan_EMAIL_REGEX s) st = fold p (scan_EMAIL_REGEX s) st"
      by (rule fold_cong) (auto simp: scan_stable Let_def)
    moreover have "s \<noteq> []" using Cons by auto
    ultimately show ?thesis using Cons by (simp add: match_EMAIL_REGEX_def)
  qed
next
  case (2 xs p st)
  show ?case using fold_concat_map[of xs "\<lambda>item. collectEmails item p" p emails_of st] 2
    by simp
next
  case (3 kvs p st)
  have "fold (\<lambda>item. collectEmails item p) (map snd kvs) st
        = fold p (concat (map emails_of (map snd kvs))) st"
    using fold_concat_map[of "map snd kvs" "\<lambda>item. collectEmails item p" p emails_of st] 3
    by simp
  then show ?case by (simp add: comp_def)
qed simp_all

lemma set_first_seen: "set (first_seen xs) \<subseteq> set xs"
  by (induction xs rule: first_seen.induct) auto

lemma distinct_first_seen: "distinct (map toLowerCase (first_seen xs))"
proof (induction xs rule: first_seen.induct)
  case 1 then show ?case by simp
next
  case (2 x xs)
  have "toLowerCase x \<notin> toLowerCase ` set (first_seen (filter (\<lambda>y. toLowerCase y \<noteq> toLowerCase x) xs))"
    using set_first_seen[of "filter (\<lambda>y. toLowerCase y \<noteq> toLowerCase x) xs"] by auto
  with 2 show ?case by simp
qed

lemma push_stable:
  "trim e = e \<Longrightarrow> e \<noteq> [] \<Longrightarrow>
   push e st = (if toLowerCase e \<in> seen st then st
                else st\<lparr>seen := insert (toLowerCase e) (seen st), ordered := ordered st @ [e]\<rparr>)"
  by (simp add: push_def Let_def)

lemma fold_push:
  "\<forall>e\<in>set es. trim e = e \<and> e \<noteq> [] \<Longrightarrow>
   ordered (fold push es st) = ordered st @ first_seen (filter (\<lambda>e. toLowerCase e \<notin> seen st) es)
   \<and> seen (fold push es st) = seen st \<union> toLowerCase ` set es"
proof (induction es arbitrary: st)
  case Nil then show ?case by simp
next
  case (Cons e es)
  then have st: "trim e = e" "e \<noteq> []" and rest: "\<forall>e\<in>set es. trim e = e \<and> e \<noteq> []" by auto
  show ?case
  proof (cases "toLowerCase e \<in> seen st")
    case True
    then show ?thesis using Cons.IH[OF rest, of st] by (auto simp: push_stable[OF st])
  next
    case False
    let ?st = "st\<lparr>seen := insert (toLowerCase e) (seen st), ordered := ordered st @ [e]\<rparr>"
    have f: "(\<lambda>x. toLowerCase x \<noteq> toLowerCase e \<and> toLowerCase x \<notin> seen st)
             = (\<lambda>x. toLowerCase x \<notin> seen st \<and> toLowerCase x \<noteq> toLowerCase e)"
      by auto
    show ?thesis using Cons.IH[OF rest, of ?st] False
      by (simp add: push_stable[OF st] f)
  qed
qed

lemma harvest_chain:
  "ordered (fold harvest vs \<lparr>seen = {}, ordered = []\<rparr>) = first_seen (concat (map emails_of vs))"
proof -
  have "fold harvest vs st = fold push (concat (map emails_of vs)) st" for st
    by (rule fold_concat_map) (simp add: harvest_def collectEmails_fold)
  moreover have "\<forall>e\<in>set (concat (map emails_of vs)). trim e = e \<and> e \<noteq> []"
    using emails_of_stable by auto
  ultimately show ?thesis using fold_push[of "concat (map emails_of vs)" "\<lparr>seen = {}, ordered = []\<rparr>"]
    by simp
qed

section \<open>founderEmails in closed form\<close>

lemma getprop_optprop:
  "a \<noteq> JUndefined \<Longrightarrow> a \<noteq> JNull \<Longrightarrow> getprop a k = Inr (optprop a k)"
  by (cases a) auto

lemma emails_of_falsy: "\<not> truthy v \<Longrightarrow> emails_of v = []"
  by (cases v) auto

lemma optprop_falsy: "\<not> truthy v \<Longrightarrow> optprop v k = JUndefined"
  by (cases v) auto

lemma truthy_not_nullish: "truthy v \<Longrightarrow> v \<noteq> JUndefined \<and> v \<noteq> JNull"
  by (cases v) auto

lemma founderEmails_eq:
  assumes "a \<noteq> JUndefined" "a \<noteq> JNull"
  shows "founderEmails P a = Inr (first_seen (concat (map emails_of (harvest_sources P a))))"
proof -
  let ?m = "optprop a (js ''metadata'')"
  let ?e = "\<lparr>seen = {}, ordered = []\<rparr>"
  let ?S = "harvest_sources P a"
  have g: "getprop a k = Inr (optprop a k)" for k using getprop_optprop[OF assms] .
  have "founderEmails P a = Inr (ordered (fold harvest ?S ?e))"
  proof (cases "truthy ?m")
    case True
    then have gm: "getprop ?m k = Inr (optprop ?m k)" for k
      using getprop_optprop truthy_not_nullish by blast
    show ?thesis
      by (simp add: founderEmails_def publicData_def company_overview_def ebind_def g gm True
          harvest_sources_def Let_def)
  next
    case False
    have h: "harvest JUndefined st = st" for st by (simp add: harvest_def)
    show ?thesis
      by (simp add: founderEmails_def publicData_def company_overview_def ebind_def g False
          harvest_sources_def Let_def optprop_falsy[OF False] h)
  qed
  then show ?thesis by (simp add: harvest_chain)
qed

lemma scan_lowercase_address: "scan_EMAIL_REGEX (js ''a@x.com'') = [js ''a@x.com'']"
  by (simp add: js_def EMAIL_REGEX_at_def match_tld_def class_defs)

lemma scan_uppercase_address: "scan_EMAIL_REGEX (js ''A@X.com'') = [js ''A@X.com'']"
  by (simp add: js_def EMAIL_REGEX_at_def match_tld_def class_defs)

lemma record_two_casings_emails: "founderEmails P record_two_casings = Inr [js ''a@x.com'']"
proof -
  have "harvest_sources P record_two_casings = [JStr (js ''a@x.com''), JStr (js ''A@X.com''), JUndefined, JUndefined, JUndefined, JObj []]"
    by (simp add: record_two_casings_def harvest_sources_def js_def publicData_of_def)
  moreover have "toLowerCase (js ''A@X.com'') = toLowerCase (js ''a@x.com'')"
    by (simp add: js_def toLowerCase_def lower_unit_def)
  ultimately show ?thesis
    using founderEmails_eq[of record_two_casings P] by (simp add: scan_lowercase_address scan_uppercase_address) (simp add: record_two_casings_def)
qed

section \<open>Order of discovery\<close>

lemma first_seen_append:
  "first_seen (xs @ ys) =
   first_seen xs @ first_seen (filter (\<lambda>y. toLowerCase y \<notin> toLowerCase ` set xs) ys)"
proof (induction xs arbitrary: ys rule: first_seen.induct)
  case 1 then show ?case by simp
next
  case (2 x xs)
  let ?f = "\<lambda>y. toLowerCase y \<noteq> toLowerCase x"
  have p: "?f y \<Longrightarrow> (toLowerCase y \<in> toLowerCase ` set (filter ?f xs))
                     = (toLowerCase y \<in> toLowerCase ` set (x # xs))" for y
  proof -
    assume fy: "?f y"
    have "set (filter ?f xs) = {z \<in> set xs. ?f z}" by simp
    then have "(toLowerCase y \<in> toLowerCase ` set (filter ?f xs))
               = (\<exists>z\<in>set xs. ?f z \<and> toLowerCase y = toLowerCase z)" by blast
    also have "\<dots> = (\<exists>z\<in>set xs. toLowerCase y = toLowerCase z)" using fy by metis
    also have "\<dots> = (toLowerCase y \<in> toLowerCase ` set (x # xs))" using fy by auto
    finally show ?thesis .
  qed
  let ?Q = "\<lambda>y. toLowerCase y \<notin> toLowerCase ` set (x # xs)"
  have q: "(?f y \<and> toLowerCase y \<notin> toLowerCase ` set (filter ?f xs)) = ?Q y" for y
    using p[of y] by auto
  have feq: "filter (\<lambda>y. toLowerCase y \<notin> toLowerCase ` set (filter ?f xs)) (filter ?f ys)
        = filter ?Q ys"
    unfolding filter_filter by (rule filter_cong[OF refl]) (use q in blast)
  have "first_seen ((x # xs) @ ys) = x # first_seen (filter ?f xs @ filter ?f ys)" by simp
  also have "\<dots> = x # (first_seen (filter ?f xs) @
       first_seen (filter (\<lambda>y. toLowerCase y \<notin> toLowerCase ` set (filter ?f xs)) (filter ?f ys)))"
    by (simp only: 2)
  also have "\<dots> = x # (first_seen (filter ?f xs) @ first_seen (filter ?Q ys))"
    by (simp only: feq)
  also have "\<dots> = first_seen (x # xs) @ first_seen (filter ?Q ys)"
    by (simp only: first_seen.simps append_Cons)
  finally show ?case .
qed

lemma precedes_append: "x \<in> set xs \<Longrightarrow> y \<in> set ys \<Longrightarrow> precedes x y (xs @ ys)"
proof -
  assume x: "x \<in> set xs" and y: "y \<in> set ys"
  then have "dropWhile (\<lambda>z. z \<noteq> x) (xs @ ys) = dropWhile (\<lambda>z. z \<noteq> x) xs @ ys"
    by (simp add: dropWhile_append1)
  moreover from x have "dropWhile (\<lambda>z. z \<noteq> x) xs \<noteq> []" by (auto simp: dropWhile_eq_Nil_conv)
  ultimately show ?thesis using y
    by (cases "dropWhile (\<lambda>z. z \<noteq> x) xs") (auto simp: precedes_def)
qed

lemma first_seen_order:
  assumes "i < j" "j < length srcs"
    and "e \<in> set (first_seen (concat (map emails_of srcs)))"
    and "e' \<in> set (first_seen (concat (map emails_of srcs)))"
    and "found_in e (srcs ! i)"
    and "\<forall>k<j. \<not> found_in e' (srcs ! k)"
  shows "precedes e e' (first_seen (concat (map emails_of srcs)))"
proof -
  let ?A = "concat (map emails_of (take j srcs))"
  let ?B = "concat (map emails_of (drop j srcs))"
  let ?B' = "filter (\<lambda>y. toLowerCase y \<notin> toLowerCase ` set ?A) ?B"
  have "concat (map emails_of srcs) = ?A @ ?B"
    by (metis append_take_drop_id concat_append map_append)
  then have r: "first_seen (concat (map emails_of srcs)) = first_seen ?A @ first_seen ?B'"
    by (simp add: first_seen_append)
  have "srcs ! i \<in> set (take j srcs)"
    using assms(1,2) by (metis in_set_conv_nth length_take min.absorb2 nth_take less_imp_le)
  then have "set (emails_of (srcs ! i)) \<subseteq> set ?A" by auto
  with assms(5) have eA: "toLowerCase e \<in> toLowerCase ` set ?A" by (auto simp: found_in_def)
  have "e \<notin> set (first_seen ?B')"
  proof
    assume "e \<in> set (first_seen ?B')"
    then have "e \<in> set ?B'" using set_first_seen by blast
    then show False using eA by simp
  qed
  with assms(3) r have 1: "e \<in> set (first_seen ?A)" by auto
  have "toLowerCase e' \<notin> toLowerCase ` set ?A"
  proof
    assume "toLowerCase e' \<in> toLowerCase ` set ?A"
    then obtain v where v: "v \<in> set (take j srcs)" "toLowerCase e' \<in> toLowerCase ` set (emails_of v)"
      by auto
    then obtain k where "k < j" "v = srcs ! k"
      using assms(2) by (metis in_set_conv_nth length_take min.absorb2 nth_take less_imp_le)
    with v assms(6) show False by (auto simp: found_in_def)
  qed
  then have "e' \<notin> set (first_seen ?A)" using set_first_seen[of ?A] by auto
  with assms(4) r have 2: "e' \<in> set (first_seen ?B')" by auto
  show ?thesis unfolding r using precedes_append[OF 1 2] .
qed

lemma scan_team_address: "scan_EMAIL_REGEX (js ''x@y.com'') = [js ''x@y.com'']"
  by (simp add: js_def EMAIL_REGEX_at_def match_tld_def class_defs)

lemma emails_of_match: "e \<in> set (emails_of v) \<Longrightarrow> \<exists>s. EMAIL_REGEX_at s = Some e"
proof (induction v rule: emails_of.induct)
  case (1 s) then show ?case using scan_matches by simp
qed auto

lemma EMAIL_REGEX_at_ascii:
  assumes "EMAIL_REGEX_at s = Some m" shows "\<forall>c\<in>set m. c < 128"
proof -
  from EMAIL_REGEX_at_shape[OF assms] obtain l d t where
    m: "m = l @ [64] @ d @ [46] @ t" and l: "\<forall>c\<in>set l. is_local c"
    and d: "\<forall>c\<in>set d. is_domain c" and t: "\<forall>c\<in>set t. is_alpha c" by blast
  have "is_local c \<Longrightarrow> c < 128" "is_domain c \<Longrightarrow> c < 128" "is_alpha c \<Longrightarrow> c < 128" for c
    by (auto simp: is_local_def is_domain_def is_alpha_def is_digit_def)
  then show ?thesis unfolding m using l d t by auto
qed

lemma match_one_at:
  assumes "EMAIL_REGEX_at s = Some m" shows "length (filter (\<lambda>c. c = 64) m) = 1"
proof -
  from EMAIL_REGEX_at_shape[OF assms] obtain l d t where
    m: "m = l @ [64] @ d @ [46] @ t" and l: "\<forall>c\<in>set l. is_local c"
    and d: "\<forall>c\<in>set d. is_domain c" and t: "\<forall>c\<in>set t. is_alpha c" by blast
  have "is_local c \<Longrightarrow> c \<noteq> 64" "is_domain c \<Longrightarrow> c \<noteq> 64" "is_alpha c \<Longrightarrow> c \<noteq> 64" for c
    by (auto simp: is_local_def is_domain_def is_alpha_def is_digit_def)
  then have "filter (\<lambda>c. c = 64) l = []" "filter (\<lambda>c. c = 64) d = []" "filter (\<lambda>c. c = 64) t = []"
    using l d t by (auto simp: filter_empty_conv)
  then show ?thesis unfolding m by simp
qed

section \<open>Claims about the email harvest\<close>

text \<open>
  Claim C1. For every analysis record the harvest returns a list with no two addresses
  equal up to letter case, each address with the casing and at the position of its first
  discovery: the result is \<open>first_seen\<close> of the addresses discovered in order. With
  \<^verbatim>\<open>metadata.founder_emails = "a@x.com"\<close> and \<^verbatim>\<open>metadata.contact_email = "A@X.com"\<close>
  the result is exactly \<^verbatim>\<open>["a@x.com"]\<close>. (The record is an object: reading a property
  of \<^verbatim>\<open>undefined\<close> or \<^verbatim>\<open>null\<close> throws.)
\<close>

theorem founderEmails_unique_first_seen:
  "(a \<noteq> JUndefined \<and> a \<noteq> JNull \<longrightarrow>
      (\<exists>r. founderEmails P a = Inr r \<and> distinct (map toLowerCase r) \<and>
           r = first_seen (concat (map emails_of (harvest_sources P a)))))
   \<and> founderEmails P record_two_casings = Inr [js ''a@x.com'']"
  using founderEmails_eq[of a P] distinct_first_seen record_two_casings_emails by simp

theorem founderEmails_unique_first_seen_witness:
  "record_two_casings \<noteq> JUndefined \<and> record_two_casings \<noteq> JNull \<and> founderEmails parse_fails record_two_casings = Inr [js ''a@x.com''] \<and>
   distinct (map toLowerCase [js ''a@x.com''])"
  using founderEmails_unique_first_seen[of record_two_casings parse_fails] by (auto simp: record_two_casings_def)

text \<open>
  Claim C2, as the code has it. The harvest visits, in this order, the founder-email
  field, the contact-email field, the founder-contacts field, the founders of the company
  overview, the whole first memo draft \<^verbatim>\<open>memo.draft_v1\<close> (not only its company
  overview), and the normalized public data. Nothing else contributes, and an address
  first discovered in an earlier source precedes every address first discovered in a later
  one.
\<close>

theorem founderEmails_source_order:
  assumes "a \<noteq> JUndefined" "a \<noteq> JNull"
  shows "\<exists>r. founderEmails P a = Inr r \<and>
           r = first_seen (concat (map emails_of (harvest_sources P a))) \<and>
           (\<forall>i j e e'. i < j \<and> j < length (harvest_sources P a) \<and> e \<in> set r \<and> e' \<in> set r \<and>
               first_found e i (harvest_sources P a) \<and> first_found e' j (harvest_sources P a)
               \<longrightarrow> precedes e e' r)"
  using founderEmails_eq[OF assms, of P] first_seen_order[of _ _ "harvest_sources P a"]
  by (auto simp: first_found_def)

theorem founderEmails_source_order_witness:
  "record_two_sources \<noteq> JUndefined \<and> record_two_sources \<noteq> JNull \<and>
   founderEmails parse_fails record_two_sources = Inr [js ''a@x.com'', js ''x@y.com''] \<and>
   first_found (js ''a@x.com'') 0 (harvest_sources parse_fails record_two_sources) \<and>
   first_found (js ''x@y.com'') 4 (harvest_sources parse_fails record_two_sources) \<and>
   precedes (js ''a@x.com'') (js ''x@y.com'') [js ''a@x.com'', js ''x@y.com'']"
proof -
  have n: "record_two_sources \<noteq> JUndefined" "record_two_sources \<noteq> JNull" by (simp_all add: record_two_sources_def)
  have hs: "harvest_sources parse_fails record_two_sources =
     [JStr (js ''a@x.com''), JUndefined, JUndefined, JUndefined,
      JObj [(js ''team'', JStr (js ''x@y.com''))], JObj []]"
    by (simp add: record_two_sources_def harvest_sources_def js_def publicData_of_def)
  have ne: "toLowerCase (js ''x@y.com'') \<noteq> toLowerCase (js ''a@x.com'')"
    by (simp add: js_def toLowerCase_def lower_unit_def)
  have r: "first_seen (concat (map emails_of (harvest_sources parse_fails record_two_sources)))
           = [js ''a@x.com'', js ''x@y.com'']"
    unfolding hs using ne by (simp add: scan_lowercase_address scan_team_address)
  have f0: "first_found (js ''a@x.com'') 0 (harvest_sources parse_fails record_two_sources)"
    unfolding hs by (simp add: first_found_def found_in_def scan_lowercase_address)
  have f4: "first_found (js ''x@y.com'') 4 (harvest_sources parse_fails record_two_sources)"
    unfolding hs using ne by (simp add: first_found_def found_in_def scan_lowercase_address scan_team_address less_Suc_eq numeral_nat)
  from founderEmails_source_order[OF n, of parse_fails] obtain r' where
    r': "founderEmails parse_fails record_two_sources = Inr r'"
        "r' = first_seen (concat (map emails_of (harvest_sources parse_fails record_two_sources)))"
        "\<forall>i j e e'. i < j \<and> j < length (harvest_sources parse_fails record_two_sources) \<and> e \<in> set r' \<and> e' \<in> set r' \<and>
               first_found e i (harvest_sources parse_fails record_two_sources) \<and> first_found e' j (harvest_sources parse_fails record_two_sources)
               \<longrightarrow> precedes e e' r'" by blast
  have len: "length (harvest_sources parse_fails record_two_sources) = 6" unfolding hs by simp
  have "precedes (js ''a@x.com'') (js ''x@y.com'') r'"
    using r'(3)[rule_format, of 0 4 "js ''a@x.com''" "js ''x@y.com''"] f0 f4 len r'(2) r by simp
  then show ?thesis using n r' r f0 f4 by simp
qed

text \<open>
  With the company overview in fifth place, as the specification lists the sources, the
  record \<^verbatim>\<open>{memo: {draft_v1: {team: "x@y.com"}}}\<close> would yield no address; the
  component harvests \<^verbatim>\<open>x@y.com\<close> from it.
\<close>

theorem founderEmails_spec_sources_counterexample:
  "founderEmails parse_fails record_draft_team = Inr [js ''x@y.com''] \<and>
   first_seen (concat (map emails_of (spec_sources parse_fails record_draft_team))) = []"
proof -
  have "harvest_sources parse_fails record_draft_team = 
     [JUndefined, JUndefined, JUndefined, JUndefined, JObj [(js ''team'', JStr (js ''x@y.com''))], JObj []]"
    by (simp add: record_draft_team_def harvest_sources_def js_def publicData_of_def)
  moreover have "spec_sources parse_fails record_draft_team = 
     [JUndefined, JUndefined, JUndefined, JUndefined, JUndefined, JObj []]"
    by (simp add: record_draft_team_def spec_sources_def js_def publicData_of_def)
  moreover have "record_draft_team \<noteq> JUndefined" "record_draft_team \<noteq> JNull" by (simp_all add: record_draft_team_def)
  ultimately show ?thesis using founderEmails_eq[of record_draft_team parse_fails] by (simp add: scan_team_address)
qed

text \<open>
  Claim C10. Every harvested address is non-empty and is, as a whole, a match of the email
  pattern: it has exactly one \<^verbatim>\<open>@\<close>, no white space, and after the \<^verbatim>\<open>@\<close> a domain
  that ends in a dot followed by at least two letters.
\<close>

theorem harvested_emails_match_pattern:
  assumes "a \<noteq> JUndefined" "a \<noteq> JNull"
  shows "\<exists>r. founderEmails P a = Inr r \<and>
     (\<forall>e\<in>set r. e \<noteq> [] \<and> EMAIL_REGEX_at e = Some e \<and>
        length (filter (\<lambda>c. c = 64) e) = 1 \<and> (\<forall>c\<in>set e. \<not> is_space c) \<and>
        (\<exists>l d t. e = l @ [64] @ d @ [46] @ t \<and> l \<noteq> [] \<and> (\<forall>c\<in>set l. is_local c) \<and>
           d \<noteq> [] \<and> (\<forall>c\<in>set d. is_domain c) \<and> 2 \<le> length t \<and> (\<forall>c\<in>set t. is_alpha c)))"
proof -
  let ?r = "first_seen (concat (map emails_of (harvest_sources P a)))"
  have "e \<noteq> [] \<and> EMAIL_REGEX_at e = Some e \<and>
        length (filter (\<lambda>c. c = 64) e) = 1 \<and> (\<forall>c\<in>set e. \<not> is_space c) \<and>
        (\<exists>l d t. e = l @ [64] @ d @ [46] @ t \<and> l \<noteq> [] \<and> (\<forall>c\<in>set l. is_local c) \<and>
           d \<noteq> [] \<and> (\<forall>c\<in>set d. is_domain c) \<and> 2 \<le> length t \<and> (\<forall>c\<in>set t. is_alpha c))"
    if "e \<in> set ?r" for e
  proof -
    from that set_first_seen have "e \<in> set (concat (map emails_of (harvest_sources P a)))"
      by blast
    then obtain v where "e \<in> set (emails_of v)" by auto
    then obtain s where s: "EMAIL_REGEX_at s = Some e" using emails_of_match by blast
    from EMAIL_REGEX_at_shape[OF s] obtain l d t where
      sh: "e = l @ [64] @ d @ [46] @ t" "l \<noteq> []" "\<forall>c\<in>set l. is_local c"
          "d \<noteq> []" "\<forall>c\<in>set d. is_domain c" "2 \<le> length t" "\<forall>c\<in>set t. is_alpha c"
      by blast
    have "EMAIL_REGEX_at e = Some e"
      unfolding sh(1) using EMAIL_REGEX_at_full[OF sh(2-7)] .
    moreover have "e \<noteq> []" using sh(1) by simp
    ultimately show ?thesis using match_one_at[OF s] match_no_space[OF s] sh by blast
  qed
  then show ?thesis using founderEmails_eq[OF assms, of P] by blast
qed

theorem harvested_emails_match_pattern_witness:
  "record_two_casings \<noteq> JUndefined \<and> record_two_casings \<noteq> JNull \<and> founderEmails parse_fails record_two_casings = Inr [js ''a@x.com''] \<and>
   EMAIL_REGEX_at (js ''a@x.com'') = Some (js ''a@x.com'') \<and>
   length (filter (\<lambda>c. c = 64) (js ''a@x.com'')) = 1"
proof -
  have n: "record_two_casings \<noteq> JUndefined" "record_two_casings \<noteq> JNull" by (simp_all add: record_two_casings_def)
  from harvested_emails_match_pattern[OF n, of parse_fails] record_two_casings_emails[of parse_fails] n
  show ?thesis by simp
qed

section \<open>Sanitization and the words of a name\<close>

lemmas sanitize_eval = sanitizeProductName_def trim_defs is_space_def js_def Let_def split_space.simps

lemma sanitize_seven_letters: "sanitizeProductName (js ''a b c d e f g'') = None"
  by (simp add: sanitize_eval)

lemma sanitize_Acme: "sanitizeProductName (js ''Acme'') = Some (js ''Acme'')"
  by (simp add: sanitize_eval)

lemma replace_spaces_Nil_iff: "replace_spaces s = [] \<longleftrightarrow> s = []"
  by (cases s) auto

lemma sanitize_Some_nonempty: "sanitizeProductName v = Some p \<Longrightarrow> p \<noteq> []"
  by (auto simp: sanitizeProductName_def Let_def replace_spaces_Nil_iff split: if_splits)

lemma trim_Nil: "trim [] = []" by (simp add: trim_defs)

lemma sanitize_Nil: "sanitizeProductName [] = None"
  by (simp add: sanitizeProductName_def trim_Nil)

lemma sanitize_guard: "(if m \<noteq> [] then sanitizeProductName m else None) = sanitizeProductName m"
  by (simp add: sanitize_Nil)

lemma or_opt_sanitize:
  "or_opt (sanitizeProductName v) b = (case sanitizeProductName v of Some p \<Rightarrow> Some p | None \<Rightarrow> b)"
  using sanitize_Some_nonempty by (auto simp: or_opt_def split: option.splits)

lemma replace_spaces_word:
  "\<forall>c\<in>set w. \<not> is_space c \<Longrightarrow> replace_spaces (w @ r) = w @ replace_spaces r"
  by (induction w) auto

lemma replace_spaces_gap:
  assumes "is_space x" "\<forall>c\<in>set ss. is_space c" "y = [] \<or> \<not> is_space (hd y)"
  shows "replace_spaces (x # ss @ y) = 32 # replace_spaces y"
proof -
  have "dropWhile is_space (ss @ y) = dropWhile is_space y"
    using assms(2) by (simp add: dropWhile_append)
  also have "\<dots> = y" using assms(3) by (cases y) auto
  finally show ?thesis using assms(1) by simp
qed

lemma trimEnd_Cons: "\<not> is_space d \<Longrightarrow> trimEnd (d # u) = d # trimEnd u"
  by (simp add: trimEnd_def dropWhile_append)

lemma trimEnd_word: "\<forall>c\<in>set w. \<not> is_space c \<Longrightarrow> trimEnd (w @ r) = w @ trimEnd r"
  by (induction w) (auto simp: trimEnd_Cons)

lemma trimEnd_spaces: "\<forall>c\<in>set ss. is_space c \<Longrightarrow> trimEnd ss = []"
  by (simp add: trimEnd_def dropWhile_eq_Nil_conv)

lemma trimEnd_gap:
  "\<not> is_space d \<Longrightarrow> trimEnd (ss @ d # u) = ss @ d # trimEnd u"
proof -
  assume d: "\<not> is_space d"
  have "trimEnd (ss @ d # u) = rev (dropWhile is_space (rev u @ d # rev ss))"
    by (simp add: trimEnd_def)
  also have "\<dots> = rev (dropWhile is_space (rev u) @ d # rev ss)"
    using d by (auto simp: dropWhile_append dropWhile_eq_Nil_conv)
  also have "\<dots> = ss @ d # trimEnd u" by (simp add: trimEnd_def)
  finally show ?thesis .
qed

lemma ws_words_Nil:
  assumes "dropWhile is_space s = []" shows "ws_words s = []"
  by (subst ws_words.simps) (simp only: assms list.case)

lemma ws_words_Cons:
  "dropWhile is_space s = c # cs \<Longrightarrow>
   ws_words s = (c # takeWhile (\<lambda>x. \<not> is_space x) cs) # ws_words (dropWhile (\<lambda>x. \<not> is_space x) cs)"
proof -
  assume a: "dropWhile is_space s = c # cs"
  then have nc: "\<not> is_space c" using hd_dropWhile[of is_space s] by auto
  show ?thesis by (subst ws_words.simps, simp only: a list.case, simp add: nc)
qed

lemma replace_spaces_trim: "replace_spaces (trim s) = join_with [32] (ws_words s)"
proof (induction s rule: ws_words.induct)
  case (1 s)
  show ?case
  proof (cases "dropWhile is_space s")
    case Nil
    have "trim s = []" unfolding trim_def trimStart_def Nil by (simp add: trimEnd_def)
    then show ?thesis by (simp add: ws_words_Nil[OF Nil])
  next
    case (Cons c cs)
    then have c: "\<not> is_space c" using hd_dropWhile[of is_space s] by auto
    let ?w = "c # takeWhile (\<lambda>x. \<not> is_space x) cs"
    let ?rest = "dropWhile (\<lambda>x. \<not> is_space x) cs"
    have w: "\<forall>x\<in>set ?w. \<not> is_space x" using c by (auto dest: set_takeWhileD)
    have split: "c # cs = ?w @ ?rest" by simp
    have IH: "replace_spaces (trim ?rest) = join_with [32] (ws_words ?rest)"
      using 1[OF Cons] .
    have ww: "ws_words s = ?w # ws_words ?rest" using ws_words_Cons[OF Cons] .
    have "trimEnd (c # cs) = trimEnd (?w @ ?rest)" by simp
    also have "\<dots> = ?w @ trimEnd ?rest" by (rule trimEnd_word[OF w])
    finally have t: "trim s = ?w @ trimEnd ?rest"
      unfolding trim_def trimStart_def Cons .
    show ?thesis
    proof (cases "dropWhile is_space ?rest")
      case Nil
      then have "\<forall>x\<in>set ?rest. is_space x" by (simp only: dropWhile_eq_Nil_conv)
      then have "trimEnd ?rest = []" by (rule trimEnd_spaces)
      moreover have "replace_spaces ?w = ?w" using replace_spaces_word[OF w, of "[]"] by simp
      moreover have "ws_words ?rest = []" using ws_words_Nil[OF Nil] .
      ultimately show ?thesis unfolding t ww by (simp only: append_Nil2 join_with.simps)
    next
      case (Cons d u)
      then have d: "\<not> is_space d" using hd_dropWhile[of is_space ?rest] by auto
      let ?ss = "takeWhile is_space ?rest"
      have r: "?rest = ?ss @ d # u" by (metis Cons takeWhile_dropWhile_id)
      have "?rest \<noteq> []"
      proof
        assume "?rest = []"
        then have "dropWhile is_space ?rest = []" by (simp only: dropWhile.simps)
        with Cons show False by simp
      qed
      then have hs: "is_space (hd ?rest)" using hd_dropWhile[of "\<lambda>x. \<not> is_space x" cs] by blast
      have "?ss \<noteq> []"
      proof
        assume "?ss = []"
        then have "\<not> is_space (hd ?rest)" using \<open>?rest \<noteq> []\<close>
          by (metis takeWhile_eq_Nil_iff)
        with hs show False by blast
      qed
      then obtain x ss' where ss: "?ss = x # ss'" by (cases ?ss) blast+
      have "\<forall>y\<in>set ?ss. is_space y" by (blast dest: set_takeWhileD)
      then have sp: "is_space x" "\<forall>y\<in>set ss'. is_space y" unfolding ss by simp_all
      have "trimEnd ?rest = trimEnd (?ss @ d # u)" using r by simp
      also have "\<dots> = ?ss @ d # trimEnd u" by (rule trimEnd_gap[OF d])
      finally have te: "trimEnd ?rest = x # ss' @ (d # trimEnd u)" unfolding ss by simp
      have tr: "trim ?rest = d # trimEnd u"
        unfolding trim_def trimStart_def Cons using trimEnd_Cons[OF d] .
      have "replace_spaces (trim s) = ?w @ replace_spaces (x # ss' @ (d # trimEnd u))"
        unfolding t te using replace_spaces_word[OF w] .
      also have "\<dots> = ?w @ 32 # replace_spaces (d # trimEnd u)"
      proof -
        have "d # trimEnd u = [] \<or> \<not> is_space (hd (d # trimEnd u))" using d by simp
        from replace_spaces_gap[OF sp this] show ?thesis by (simp only:)
      qed
      also have "\<dots> = ?w @ [32] @ join_with [32] (ws_words ?rest)"
        unfolding tr[symmetric] IH by simp
      also have "\<dots> = join_with [32] (?w # ws_words ?rest)"
      proof -
        obtain y ys where "ws_words ?rest = y # ys" using ws_words_Cons[OF Cons] by blast
        then show ?thesis by simp
      qed
      finally show ?thesis unfolding ww .
    qed
  qed
qed

lemma ws_words_no_space:
  "w \<in> set (ws_words s) \<Longrightarrow> w \<noteq> [] \<and> (\<forall>c\<in>set w. \<not> is_space c)"
proof (induction s rule: ws_words.induct)
  case (1 s)
  show ?case
  proof (cases "dropWhile is_space s")
    case Nil
    with 1(2) show ?thesis by (simp add: ws_words_Nil[OF Nil])
  next
    case (Cons c cs)
    then have c: "\<not> is_space c" using hd_dropWhile[of is_space s] by auto
    from 1(2) have "w = c # takeWhile (\<lambda>x. \<not> is_space x) cs \<or>
        w \<in> set (ws_words (dropWhile (\<lambda>x. \<not> is_space x) cs))"
      unfolding ws_words_Cons[OF Cons] by simp
    then show ?thesis
    proof
      assume "w = c # takeWhile (\<lambda>x. \<not> is_space x) cs"
      then show ?thesis using c by (auto dest: set_takeWhileD)
    next
      assume "w \<in> set (ws_words (dropWhile (\<lambda>x. \<not> is_space x) cs))"
      then show ?thesis using 1(1)[OF Cons] by blast
    qed
  qed
qed

lemma split_space_word: "32 \<notin> set w \<Longrightarrow> split_space w = [w]"
proof -
  assume a: "32 \<notin> set w"
  then have "dropWhile (\<lambda>c. c \<noteq> 32) w = []" by (auto simp: dropWhile_eq_Nil_conv)
  then show ?thesis by (subst split_space.simps) (simp only: list.case)
qed

lemma split_space_append: "32 \<notin> set w \<Longrightarrow> split_space (w @ 32 # r) = w # split_space r"
proof -
  assume a: "32 \<notin> set w"
  then have d: "dropWhile (\<lambda>c. c \<noteq> 32) (w @ 32 # r) = 32 # r"
    by (induction w) auto
  have t: "takeWhile (\<lambda>c. c \<noteq> 32) (w @ 32 # r) = w"
    using a by (induction w) auto
  show ?thesis by (subst split_space.simps) (simp only: d t list.case)
qed

lemma split_space_join:
  "ws \<noteq> [] \<Longrightarrow> \<forall>w\<in>set ws. 32 \<notin> set w \<Longrightarrow> split_space (join_with [32] ws) = ws"
proof (induction ws)
  case Nil then show ?case by simp
next
  case (Cons x xs)
  have x: "32 \<notin> set x" using Cons.prems(2) by simp
  show ?case
  proof (cases xs)
    case Nil
    then show ?thesis using x by (simp add: split_space_word)
  next
    case (Cons y ys)
    then have "split_space (join_with [32] xs) = xs" using Cons.IH Cons.prems(2) by simp
    then show ?thesis using x Cons by (simp add: split_space_append)
  qed
qed

lemma space_is_space: "is_space 32" by (simp add: is_space_def)

lemma trim_Nil_iff: "trim s = [] \<longleftrightarrow> ws_words s = []"
proof (cases "dropWhile is_space s")
  case Nil
  have "trim s = []" unfolding trim_def trimStart_def Nil by (simp add: trimEnd_def)
  then show ?thesis by (simp add: ws_words_Nil[OF Nil])
next
  case (Cons c cs)
  then have c: "\<not> is_space c" using hd_dropWhile[of is_space s] by auto
  have "trim s = c # trimEnd cs" unfolding trim_def trimStart_def Cons using trimEnd_Cons[OF c] .
  then show ?thesis by (simp add: ws_words_Cons[OF Cons])
qed

lemma ws_words_padded:
  "ws_words (js ''  Acme   Robotics '') = [js ''Acme'', js ''Robotics'']"
  by (simp add: js_def ws_words.simps is_space_def)

text \<open>
  Claim C5, as the code has it. Sanitization trims its input and collapses each run of
  white space to one space: the normalized string is the words of the input joined by
  single spaces. It returns no candidate exactly when the input has no word at all (it
  trims to empty), or the normalized string is longer than 60 characters, or it has more
  than 6 words. The seven-word candidate yields none; \<^verbatim>\<open>"Acme Robotics"\<close> yields itself.
\<close>

theorem sanitizeProductName_normalizes:
  "sanitizeProductName v =
     (let ws = ws_words v; normalized = join_with [32] ws
      in if ws = [] \<or> 60 < length normalized \<or> 6 < length ws then None else Some normalized)
   \<and> sanitizeProductName (js ''the quick brown fox jumps over lazily'') = None
   \<and> sanitizeProductName (js ''Acme Robotics'') = Some (js ''Acme Robotics'')"
proof -
  have 1: "sanitizeProductName v =
     (let ws = ws_words v; normalized = join_with [32] ws
      in if ws = [] \<or> 60 < length normalized \<or> 6 < length ws then None else Some normalized)"
  proof (cases "ws_words v = []")
    case True
    then show ?thesis by (simp add: sanitizeProductName_def trim_Nil_iff)
  next
    case False
    have "\<forall>w\<in>set (ws_words v). 32 \<notin> set w"
      using ws_words_no_space space_is_space by blast
    then have "split_space (join_with [32] (ws_words v)) = ws_words v"
      using split_space_join[OF False] by blast
    then show ?thesis using False
      by (simp add: sanitizeProductName_def trim_Nil_iff replace_spaces_trim Let_def)
  qed
  have 2: "sanitizeProductName (js ''the quick brown fox jumps over lazily'') = None"
    by (simp add: sanitize_eval)
  have 3: "sanitizeProductName (js ''Acme Robotics'') = Some (js ''Acme Robotics'')"
    by (simp add: sanitize_eval)
  show ?thesis using 1 2 3 by blast
qed

theorem sanitizeProductName_normalizes_witness:
  "sanitizeProductName (js ''  Acme   Robotics '') = Some (js ''Acme Robotics'')"
  using sanitizeProductName_normalizes[of "js ''  Acme   Robotics ''"]
  by (simp add: ws_words_padded Let_def) (simp add: js_def)

text \<open>
  The empty input (what \<^verbatim>\<open>rawProductName\<close> is when there is no candidate) yields no
  candidate although its normalized string, the empty one, is neither longer than 60
  characters nor of more than 6 pieces.
\<close>

theorem sanitizeProductName_blank_counterexample:
  "sanitizeProductName [] = None \<and>
   \<not> (60 < length (replace_spaces (trim [])) \<or>
      6 < length (split_space (replace_spaces (trim []))))"
  by (simp add: sanitize_eval trimStart_def trimEnd_def)

section \<open>The resolved names\<close>

lemma namesMeta_eq:
  assumes "a \<noteq> JUndefined" "a \<noteq> JNull"
  shows "\<exists>nm. namesMeta a = Inr nm \<and> nm \<noteq> JUndefined \<and> nm \<noteq> JNull \<and>
     (\<forall>k. optprop nm k = optprop (optprop (optprop a (js ''metadata'')) (js ''names'')) k)"
  by (auto simp: namesMeta_def ebind_def Let_def getprop_optprop[OF assms])

lemma company_overview_eq:
  assumes "a \<noteq> JUndefined" "a \<noteq> JNull"
  shows "company_overview a =
     Inr (optprop (optprop (optprop a (js ''memo'')) (js ''draft_v1'')) (js ''company_overview''))"
  by (simp add: company_overview_def ebind_def getprop_optprop[OF assms])

lemma companyName_eq:
  assumes "a \<noteq> JUndefined" "a \<noteq> JNull"
  shows "\<exists>c. companyName a = Inr c"
proof -
  from namesMeta_eq[OF assms] obtain nm where
    nm: "namesMeta a = Inr nm" "nm \<noteq> JUndefined" "nm \<noteq> JNull" by blast
  show ?thesis
    by (simp add: companyName_def ebind_def nm(1) getprop_optprop[OF nm(2,3)]
        getprop_optprop[OF assms] company_overview_eq[OF assms])
qed

lemma productName_eq:
  assumes "a \<noteq> JUndefined" "a \<noteq> JNull"
  shows "productName a =
     Inr (case sanitizeProductName (first_product_candidate a) of
            Some p \<Rightarrow> Some p
          | None \<Rightarrow> sanitizeProductName (coerce (optprop (optprop (optprop (optprop a
                      (js ''memo'')) (js ''draft_v1'')) (js ''company_overview'')) (js ''technology''))))"
proof -
  from namesMeta_eq[OF assms] obtain nm where
    nm: "namesMeta a = Inr nm" "nm \<noteq> JUndefined" "nm \<noteq> JNull"
        "\<And>k. optprop nm k = optprop (optprop (optprop a (js ''metadata'')) (js ''names'')) k"
    by blast
  have raw: "rawProductName a = Inr (first_product_candidate a)"
    by (simp add: rawProductName_def ebind_def nm(1) getprop_optprop[OF nm(2,3)] nm(4)
        getprop_optprop[OF assms] first_product_candidate_def or_str_def Let_def)
  have memo: "memoProductCandidate a = Inr (coerce (optprop (optprop (optprop (optprop a
                      (js ''memo'')) (js ''draft_v1'')) (js ''company_overview'')) (js ''technology'')))"
    by (simp add: memoProductCandidate_def ebind_def company_overview_eq[OF assms])
  show ?thesis
    by (simp only: productName_def ebind_def raw memo or_opt_sanitize sanitize_guard sum.case)
qed

lemma or_str_nonempty: "b \<noteq> [] \<Longrightarrow> or_str x b \<noteq> []"
  by (simp add: or_str_def)

lemma the_company_nonempty: "js ''the company'' \<noteq> []"
  by (simp add: js_def)

lemma displayName_eq:
  assumes "a \<noteq> JUndefined" "a \<noteq> JNull" "companyName a = Inr c" "productName a = Inr p"
  shows "displayName a =
     Inr (or_str (coerce (optprop (optprop (optprop a (js ''metadata'')) (js ''names'')) (js ''display'')))
         (or_str (coerce (optprop (optprop a (js ''metadata'')) (js ''display_name'')))
         (or_str c (case p of Some q \<Rightarrow> or_str q (js ''the company'') | None \<Rightarrow> js ''the company''))))"
proof -
  from namesMeta_eq[OF assms(1,2)] obtain nm where
    nm: "namesMeta a = Inr nm" "nm \<noteq> JUndefined" "nm \<noteq> JNull"
        "\<And>k. optprop nm k = optprop (optprop (optprop a (js ''metadata'')) (js ''names'')) k"
    by blast
  show ?thesis
    by (simp add: displayName_def ebind_def nm(1) getprop_optprop[OF nm(2,3)] nm(4)
        getprop_optprop[OF assms(1,2)] assms(3,4))
qed

lemma long_product_candidate: "first_product_candidate record_long_product = js ''a b c d e f g''"
  by (simp add: first_product_candidate_def record_long_product_def js_def coerce_def trim_defs is_space_def)

text \<open>
  Claim C6, as the code has it. The product name is the sanitization of the first
  non-empty (trimmed) candidate among the product field of the display-names bag and the
  \<^verbatim>\<open>product_name\<close> metadata field; when that fails or there is no candidate, it is the
  memo's technology field passed through sanitization, and otherwise it is absent. The
  second candidate is not tried when the first is non-empty and fails.
\<close>

theorem productName_first_nonempty_candidate:
  assumes "a \<noteq> JUndefined" "a \<noteq> JNull"
  shows "productName a =
     Inr (case sanitizeProductName (first_product_candidate a) of
            Some p \<Rightarrow> Some p
          | None \<Rightarrow> sanitizeProductName (coerce (optprop (optprop (optprop (optprop a
                      (js ''memo'')) (js ''draft_v1'')) (js ''company_overview'')) (js ''technology''))))"
  using productName_eq[OF assms] .

theorem productName_first_nonempty_candidate_witness:
  "record_long_product \<noteq> JUndefined \<and> record_long_product \<noteq> JNull \<and>
   productName record_long_product = Inr None"
proof -
  have n: "record_long_product \<noteq> JUndefined" "record_long_product \<noteq> JNull"
    by (simp_all add: record_long_product_def)
  have t: "coerce (optprop (optprop (optprop (optprop record_long_product
            (js ''memo'')) (js ''draft_v1'')) (js ''company_overview'')) (js ''technology'')) = []"
    by (simp add: record_long_product_def js_def coerce_def)
  show ?thesis
    using productName_first_nonempty_candidate[OF n] n
    by (simp add: long_product_candidate sanitize_seven_letters t sanitize_Nil)
qed

text \<open>
  With a seven-word product field and \<^verbatim>\<open>product_name = "Acme"\<close> the first candidate that
  passes sanitization is \<^verbatim>\<open>Acme\<close>, but the component resolves no product name.
\<close>

theorem productName_spec_counterexample:
  "productName record_long_product = Inr None \<and>
   spec_productName record_long_product = Some (js ''Acme'')"
proof -
  have n: "record_long_product \<noteq> JUndefined" "record_long_product \<noteq> JNull"
    by (simp_all add: record_long_product_def)
  have t: "coerce (optprop (optprop (optprop (optprop record_long_product
            (js ''memo'')) (js ''draft_v1'')) (js ''company_overview'')) (js ''technology'')) = []"
    by (simp add: record_long_product_def js_def coerce_def)
  have 1: "productName record_long_product = Inr None"
    by (simp add: productName_eq[OF n] long_product_candidate sanitize_seven_letters t sanitize_Nil)
  have c1: "coerce (optprop (optprop (optprop record_long_product (js ''metadata'')) (js ''names'')) (js ''product''))
            = js ''a b c d e f g''"
    by (simp add: record_long_product_def js_def coerce_def trim_defs is_space_def)
  have c2: "coerce (optprop (optprop record_long_product (js ''metadata'')) (js ''product_name'')) = js ''Acme''"
    by (simp add: record_long_product_def js_def coerce_def trim_defs is_space_def)
  have 2: "spec_productName record_long_product = Some (js ''Acme'')"
    by (simp add: spec_productName_def Let_def c1 c2 sanitize_seven_letters sanitize_Acme)
  show ?thesis using 1 2 by simp
qed

text \<open>
  Claim C7. Identity resolution never throws on an analysis record (an object): the
  company name, product name, display name, product flag and combined label are all
  computed. The display name is the first non-empty of the display field of the names
  bag, the \<^verbatim>\<open>display_name\<close> metadata field, the company name, the product name and the
  literal \<^verbatim>\<open>the company\<close>, so it is never empty; for the empty record it is
  \<^verbatim>\<open>the company\<close>.
\<close>

theorem identity_never_throws_displayName_nonempty:
  "(a \<noteq> JUndefined \<and> a \<noteq> JNull \<longrightarrow>
     (\<exists>c p d sp cn. companyName a = Inr c \<and> productName a = Inr p \<and> displayName a = Inr d \<and>
        showProduct lc a = Inr sp \<and> combinedName lc a = Inr cn \<and> d \<noteq> [] \<and>
        d = or_str (coerce (optprop (optprop (optprop a (js ''metadata'')) (js ''names'')) (js ''display'')))
           (or_str (coerce (optprop (optprop a (js ''metadata'')) (js ''display_name'')))
           (or_str c (case p of Some q \<Rightarrow> or_str q (js ''the company'') | None \<Rightarrow> js ''the company'')))))
   \<and> displayName (JObj []) = Inr (js ''the company'')"
proof -
  have 1: "\<exists>c p d sp cn. companyName a = Inr c \<and> productName a = Inr p \<and> displayName a = Inr d \<and>
        showProduct lc a = Inr sp \<and> combinedName lc a = Inr cn \<and> d \<noteq> [] \<and>
        d = or_str (coerce (optprop (optprop (optprop a (js ''metadata'')) (js ''names'')) (js ''display'')))
           (or_str (coerce (optprop (optprop a (js ''metadata'')) (js ''display_name'')))
           (or_str c (case p of Some q \<Rightarrow> or_str q (js ''the company'') | None \<Rightarrow> js ''the company'')))"
    if n: "a \<noteq> JUndefined" "a \<noteq> JNull"
  proof -
    from companyName_eq[OF n] obtain c where c: "companyName a = Inr c" by blast
    from productName_eq[OF n] obtain p where p: "productName a = Inr p" by blast
    note d = displayName_eq[OF n c p]
    have "(case p of Some q \<Rightarrow> or_str q (js ''the company'') | None \<Rightarrow> js ''the company'') \<noteq> []"
      using the_company_nonempty by (auto simp: or_str_def split: option.splits)
    then have ne: "or_str (coerce (optprop (optprop (optprop a (js ''metadata'')) (js ''names'')) (js ''display'')))
           (or_str (coerce (optprop (optprop a (js ''metadata'')) (js ''display_name'')))
           (or_str c (case p of Some q \<Rightarrow> or_str q (js ''the company'') | None \<Rightarrow> js ''the company''))) \<noteq> []"
      by (intro or_str_nonempty)
    have sp: "\<exists>sp. showProduct lc a = Inr sp" by (simp add: showProduct_def ebind_def c p)
    then obtain sp where sp': "showProduct lc a = Inr sp" by blast
    have cn: "\<exists>cn. combinedName lc a = Inr cn" by (simp add: combinedName_def ebind_def c p d sp')
    show ?thesis using c p d sp' cn ne by auto
  qed
  have 2: "displayName (JObj []) = Inr (js ''the company'')"
  proof -
    have n: "JObj [] \<noteq> JUndefined" "JObj [] \<noteq> JNull" by simp_all
    have c: "companyName (JObj []) = Inr []"
      by (simp add: companyName_def namesMeta_def company_overview_def ebind_def coerce_def or_str_def)
    have p: "productName (JObj []) = Inr None"
      by (simp add: productName_eq[OF n] first_product_candidate_def coerce_def sanitize_Nil)
    show ?thesis by (simp add: displayName_eq[OF n c p] coerce_def or_str_def)
  qed
  show ?thesis using 1 2 by blast
qed

theorem identity_never_throws_displayName_nonempty_witness:
  "JObj [] \<noteq> JUndefined \<and> JObj [] \<noteq> JNull \<and> displayName (JObj []) = Inr (js ''the company'') \<and>
   js ''the company'' \<noteq> []"
  using identity_never_throws_displayName_nonempty[of "JObj []" toLowerCase] by auto

section \<open>Claims about the conversation\<close>

text \<open>
  Claim C4. When the start request fails (the serializer or the interview service
  throws), the history becomes the single model message with the fixed apology, nothing is
  thrown to the caller, and the loading flag is cleared; the flag is cleared and nothing
  is thrown on success as well.
\<close>

theorem getInitialBotMessage_failure_swallowed:
  "(\<exists>st'. getInitialBotMessage J svc a st = Inr st' \<and> \<not> isLoading st') \<and>
   (J a = Inl e \<or> (\<exists>s. J a = Inr s \<and> svc \<lparr>input_analysisData = s, input_history = []\<rparr> = Inl e)
      \<longrightarrow> getInitialBotMessage J svc a st =
           Inr \<lparr>messages = [\<lparr>role = Model, content = apology\<rparr>], input = input st, isLoading = False\<rparr>)"
  by (auto simp: getInitialBotMessage_def ebind_def Let_def apology_def split: sum.splits)

theorem getInitialBotMessage_failure_swallowed_witness:
  "stringify_braces (JObj []) = Inr (js ''{}'') \<and>
   service_down \<lparr>input_analysisData = js ''{}'', input_history = []\<rparr> = Inl ServiceError \<and>
   getInitialBotMessage stringify_braces service_down (JObj []) state_mounting =
     Inr \<lparr>messages = [\<lparr>role = Model, content = apology\<rparr>], input = [], isLoading = False\<rparr>"
  using getInitialBotMessage_failure_swallowed
    [of stringify_braces service_down "JObj []" state_mounting ServiceError]
  by (simp add: stringify_braces_def service_down_def state_mounting_def)

text \<open>
  Claim C3. A send is a no-op, the message history and all other conversation state
  unchanged, whenever the user text trims to empty or a request is in flight. A send
  reaches \<^verbatim>\<open>handleSendMessage\<close> through the Enter key handler or the send button:
  \<^verbatim>\<open>handleSendMessage\<close> itself returns at once on a text that trims to empty, the key
  handler does not call it while a request is in flight, and the button is disabled
  while a request is in flight or the text trims to empty.
\<close>

theorem send_noop_blank_or_loading:
  "(trim (input st) = [] \<longrightarrow> handleSendMessage J svc a st = Inr st) \<and>
   (trim (input st) = [] \<or> isLoading st \<longrightarrow>
      onKeyDown J svc a key st = Inr st \<and> onClick J svc a st = Inr st)"
  by (auto simp: handleSendMessage_def onKeyDown_def onClick_def sendButton_disabled_def)

theorem send_noop_blank_or_loading_witness:
  "trim (input state_blank_input) = [] \<and>
   handleSendMessage stringify_braces service_ok (JObj []) state_blank_input = Inr state_blank_input \<and>
   onKeyDown stringify_braces service_ok (JObj []) (js ''Enter'') state_blank_input = Inr state_blank_input \<and>
   onClick stringify_braces service_ok (JObj []) state_blank_input = Inr state_blank_input \<and>
   isLoading state_busy_typed \<and>
   onKeyDown stringify_braces service_ok (JObj []) (js ''Enter'') state_busy_typed = Inr state_busy_typed \<and>
   onClick stringify_braces service_ok (JObj []) state_busy_typed = Inr state_busy_typed"
proof -
  have b: "trim (input state_blank_input) = []"
    by (simp add: state_blank_input_def js_def trim_defs is_space_def)
  have l: "isLoading state_busy_typed" by (simp add: state_busy_typed_def)
  show ?thesis
    using send_noop_blank_or_loading[of state_blank_input stringify_braces service_ok "JObj []" "js ''Enter''"]
      send_noop_blank_or_loading[of state_busy_typed stringify_braces service_ok "JObj []" "js ''Enter''"] b l
    by simp
qed

section \<open>Rendering: lists and paragraphs\<close>

lemma flushList_nodes:
  "nodes (flushList st) =
     nodes st @ (if listBuffer st = [] then []
                 else [BulletList (map renderInlineSegments (listBuffer st))])"
  by (simp add: flushList_def)

lemma flushList_buffer: "listBuffer (flushList st) = []"
  by (simp add: flushList_def)

lemma flushList_idem: "flushList (flushList st) = flushList st"
  by (simp add: flushList_def)

lemma blocks_of_run:
  assumes "\<forall>b\<in>set bs. is_bullet b" "bs \<noteq> []" "rest = [] \<or> \<not> is_bullet (hd rest)"
  shows "blocks_of (bs @ rest) = BulletList (map bullet_item bs) # blocks_of rest"
proof -
  from assms(2) obtain b bs' where bs: "bs = b # bs'" by (cases bs) auto
  have t: "takeWhile is_bullet (bs' @ rest) = bs'"
    using assms(1,3) unfolding bs by (cases rest) (auto simp: takeWhile_append2 takeWhile_tail)
  have d: "dropWhile is_bullet (bs' @ rest) = rest"
    using assms(1,3) unfolding bs by (cases rest) (auto simp: dropWhile_append2)
  show ?thesis using assms(1) unfolding bs by (simp add: t d)
qed

lemma blocks_of_pending:
  assumes "\<forall>b\<in>set bs. is_bullet b" "rest = [] \<or> \<not> is_bullet (hd rest)"
  shows "blocks_of (bs @ rest) =
     (if bs = [] then [] else [BulletList (map bullet_item bs)]) @ blocks_of rest"
  using blocks_of_run[OF assms(1) _ assms(2)] by (cases "bs = []") auto

lemma forEach_line_blocks:
  assumes "n = idx + length ls" "\<forall>b\<in>set bs. is_bullet b"
    "listBuffer st = map (\<lambda>l. trim (drop 1 l)) bs"
  shows "nodes (flushList (forEach_line n idx ls st)) = nodes st @ blocks_of (bs @ ls)"
  using assms
proof (induction ls arbitrary: idx bs st)
  case Nil
  have "map renderInlineSegments (listBuffer st) = map bullet_item bs"
    using Nil(3) by (simp add: bullet_item_def comp_def)
  moreover have "listBuffer st = [] \<longleftrightarrow> bs = []" using Nil(3) by simp
  ultimately show ?case using blocks_of_pending[OF Nil(2), of "[]"]
    by (simp add: flushList_nodes)
next
  case (Cons l ls)
  have n: "n = Suc idx + length ls" using Cons.prems(1) by simp
  show ?case
  proof (cases "is_bullet l")
    case True
    let ?st1 = "st\<lparr>listBuffer := listBuffer st @ [trim (drop 1 l)]\<rparr>"
    have b1: "\<forall>b\<in>set (bs @ [l]). is_bullet b" using Cons.prems(2) True by simp
    have l1: "listBuffer ?st1 = map (\<lambda>l. trim (drop 1 l)) (bs @ [l])"
      using Cons.prems(3) by simp
    have IH: "nodes (flushList (forEach_line n (Suc idx) ls ?st1)) = nodes st @ blocks_of ((bs @ [l]) @ ls)"
      using Cons.IH[OF n b1 l1] by simp
    have "flushList (forEach_line n (Suc idx) ls (render_line n l idx st))
          = flushList (forEach_line n (Suc idx) ls ?st1)"
    proof (cases ls)
      case Nil
      then show ?thesis using True
        by (simp add: render_line_def is_bullet_def Let_def flushList_idem)
    next
      case (Cons x xs)
      then have "idx \<noteq> n - 1" using n by simp
      then show ?thesis using True by (simp add: render_line_def is_bullet_def Let_def)
    qed
    then show ?thesis using IH by simp
  next
    case False
    let ?st1 = "flushList st"
    let ?st2 = "?st1\<lparr>nodes := nodes ?st1 @ [Paragraph (renderInlineSegments l)]\<rparr>"
    have r: "render_line n l idx st = ?st2"
      using False by (simp add: render_line_def is_bullet_def Let_def)
    have l2: "listBuffer ?st2 = map (\<lambda>l. trim (drop 1 l)) []"
      by (simp add: flushList_buffer)
    have IH: "nodes (flushList (forEach_line n (Suc idx) ls ?st2)) = nodes ?st2 @ blocks_of ([] @ ls)"
      by (rule Cons.IH[OF n _ l2]) simp
    have m: "map renderInlineSegments (listBuffer st) = map bullet_item bs"
      using Cons.prems(3) by (simp add: bullet_item_def comp_def)
    have e: "listBuffer st = [] \<longleftrightarrow> bs = []" using Cons.prems(3) by simp
    have "blocks_of (bs @ l # ls) =
        (if bs = [] then [] else [BulletList (map bullet_item bs)]) @ blocks_of (l # ls)"
      using blocks_of_pending[OF Cons.prems(2), of "l # ls"] False by simp
    then show ?thesis using IH False by (simp add: r flushList_nodes m e)
  qed
qed

lemma renderMessageContent_blocks:
  "renderMessageContent t =
     (if message_lines t = [] then [Paragraph [PlainText t]] else blocks_of (message_lines t))"
  using forEach_line_blocks[of "length (message_lines t)" 0 "message_lines t" "[]"
      "\<lparr>nodes = [], listBuffer = []\<rparr>"]
  by (simp add: renderMessageContent_def Let_def)

lemma example_lines:
  "message_lines reply_bullets_then_plain = [[8226] @ js '' one'', [8226] @ js '' two'', js ''plain line'']"
  by (simp add: message_lines_def reply_bullets_then_plain_def js_def trim_def trimStart_def
      trimEnd_def is_space_def)

lemma plain_segments:
  "renderInlineSegments (js ''one'') = [PlainText (js ''one'')]"
  "renderInlineSegments (js ''two'') = [PlainText (js ''two'')]"
  "renderInlineSegments (js ''plain line'') = [PlainText (js ''plain line'')]"
  by (simp_all add: renderInlineSegments_def js_def emphasis_at_def startsWith_def
      render_segment_def List.map_filter_simps)

text \<open>
  Claim C8. For every reply text with at least one non-empty line, the rendered blocks are
  those of its trimmed non-empty lines: consecutive lines that begin with the bullet marker
  are buffered, marker stripped (and the rest trimmed), and come out as one list in their
  order before the paragraph of the next line without the marker; what is still buffered
  after the last line is a final list. The reply of two bullet lines and a plain line is
  the list of \<^verbatim>\<open>one\<close> and \<^verbatim>\<open>two\<close> followed by the paragraph \<^verbatim>\<open>plain line\<close>.
\<close>

theorem renderMessageContent_groups_bullets:
  "renderMessageContent t =
     (if message_lines t = [] then [Paragraph [PlainText t]] else blocks_of (message_lines t))
   \<and> renderMessageContent reply_bullets_then_plain =
       [BulletList [[PlainText (js ''one'')], [PlainText (js ''two'')]],
        Paragraph [PlainText (js ''plain line'')]]"
proof -
  have "blocks_of (message_lines reply_bullets_then_plain) =
       [BulletList [[PlainText (js ''one'')], [PlainText (js ''two'')]],
        Paragraph [PlainText (js ''plain line'')]]"
    unfolding example_lines
    using plain_segments
    by (simp add: is_bullet_def startsWith_def bullet_item_def js_def trim_def trimStart_def
        trimEnd_def is_space_def)
  then show ?thesis using renderMessageContent_blocks example_lines by simp
qed

theorem renderMessageContent_groups_bullets_witness:
  "message_lines reply_bullets_then_plain \<noteq> [] \<and>
   renderMessageContent reply_bullets_then_plain = blocks_of (message_lines reply_bullets_then_plain)"
  using renderMessageContent_groups_bullets[of reply_bullets_then_plain]
  by (simp add: example_lines)

section \<open>The mail link: recipients and encoding\<close>

lemma utf8_of_code_point_bytes: "cp < 1114112 \<Longrightarrow> \<forall>b\<in>set (utf8_of_code_point cp). b < 256"
  by (auto simp: utf8_of_code_point_def)

lemma utf8_encode_bytes: "\<forall>c\<in>set s. c < 65536 \<Longrightarrow> \<forall>b\<in>set (utf8_encode s). b < 256"
proof (induction s rule: utf8_encode.induct)
  case 1 then show ?case by simp
next
  case (2 c)
  then have "(if is_high_surrogate c \<or> is_low_surrogate c then 65533 else c) < 1114112" by simp
  from utf8_of_code_point_bytes[OF this] show ?case by simp
next
  case (3 c d cs)
  show ?case
  proof (cases "is_high_surrogate c \<and> is_low_surrogate d")
    case True
    then have "65536 + (c - 55296) * 1024 + (d - 56320) < 1114112"
      by (auto simp: is_high_surrogate_def is_low_surrogate_def)
    from utf8_of_code_point_bytes[OF this] 3 True show ?thesis by auto
  next
    case False
    have "(if is_high_surrogate c \<or> is_low_surrogate c then 65533 else c) < 1114112"
      using 3(3) by simp
    from utf8_of_code_point_bytes[OF this] 3 False show ?thesis by auto
  qed
qed

lemma hex_digit_safe: "n < 16 \<Longrightarrow> url_safe (hex_digit n)"
  by (auto simp: hex_digit_def url_safe_def is_alpha_def is_digit_def)

lemma encode_byte_safe: "b < 256 \<Longrightarrow> \<forall>c\<in>set (encode_byte b). url_safe c \<or> c = 43 \<or> c = 37"
proof -
  assume "b < 256"
  then have "b div 16 < 16" "b mod 16 < 16" by auto
  then show ?thesis using hex_digit_safe by (auto simp: encode_byte_def)
qed

lemma urlencode_safe:
  "\<forall>c\<in>set s. c < 65536 \<Longrightarrow> \<forall>c\<in>set (urlencode s). url_safe c \<or> c = 43 \<or> c = 37"
  using utf8_encode_bytes[of s] encode_byte_safe by (auto simp: urlencode_def)

lemmas urlencode_eval = urlencode_def js_def utf8_of_code_point_def encode_byte_def url_safe_def
  is_alpha_def is_digit_def is_high_surrogate_def is_low_surrogate_def hex_digit_def

lemma urlencode_ascii_word:
  "urlencode (js ''view'') = js ''view''" "urlencode (js ''cm'') = js ''cm''"
  "urlencode (js ''fs'') = js ''fs''" "urlencode (js ''1'') = js ''1''"
  "urlencode (js ''su'') = js ''su''" "urlencode (js ''body'') = js ''body''"
  "urlencode (js ''to'') = js ''to''"
  by (simp_all add: urlencode_def js_def utf8_of_code_point_def encode_byte_def url_safe_def
      is_alpha_def is_digit_def is_high_surrogate_def is_low_surrogate_def)

lemma gmailParams_eq:
  "gmailParams subject body emails =
     [(js ''view'', js ''cm''), (js ''fs'', js ''1''), (js ''su'', subject), (js ''body'', body)]
     @ (if emails = [] then [] else [(js ''to'', join_with [44] emails)])"
  by (simp add: gmailParams_def params_set_def js_def)

lemma gmailLink_eq:
  "gmailLink subject body emails =
     js ''https://mail.google.com/mail/?view=cm&fs=1&su='' @ urlencode subject @
     js ''&body='' @ urlencode body @
     (if emails = [] then [] else js ''&to='' @ urlencode (join_with [44] emails))"
  unfolding gmailLink_def gmailParams_eq params_toString_def
  by (simp add: urlencode_ascii_word) (simp add: js_def)

lemma derived_names_total:
  assumes "a \<noteq> JUndefined" "a \<noteq> JNull"
  shows "\<exists>c p d sp cn. companyName a = Inr c \<and> productName a = Inr p \<and> displayName a = Inr d \<and>
           showProduct lc a = Inr sp \<and> combinedName lc a = Inr cn"
proof -
  from companyName_eq[OF assms] obtain c where c: "companyName a = Inr c" by blast
  from productName_eq[OF assms] obtain p where p: "productName a = Inr p" by blast
  note d = displayName_eq[OF assms c p]
  have "\<exists>sp. showProduct lc a = Inr sp" by (simp add: showProduct_def ebind_def c p)
  then obtain sp where sp: "showProduct lc a = Inr sp" by blast
  have "\<exists>cn. combinedName lc a = Inr cn" by (simp add: combinedName_def ebind_def c p d sp)
  then show ?thesis using c p d sp by blast
qed

lemma mail_texts_total:
  assumes "a \<noteq> JUndefined" "a \<noteq> JNull"
  shows "\<exists>subject body. mailSubject lc a = Inr subject \<and> mailBody a = Inr body"
proof -
  from derived_names_total[OF assms] obtain c p d sp cn where
    t: "companyName a = Inr c" "productName a = Inr p" "displayName a = Inr d"
       "showProduct lc a = Inr sp" "combinedName lc a = Inr cn" by blast
  have "\<exists>subject. mailSubject lc a = Inr subject" by (simp add: mailSubject_def ebind_def t)
  moreover have "\<exists>body. mailBody a = Inr body"
    by (simp add: mailBody_def fallbackCompany_def productLabel_def ebind_def t)
  ultimately show ?thesis by blast
qed

text \<open>
  Claim C9. The link is the compose address with the parameters \<^verbatim>\<open>view\<close>, \<^verbatim>\<open>fs\<close>,
  \<^verbatim>\<open>su\<close> and \<^verbatim>\<open>body\<close>, and a parameter \<^verbatim>\<open>to\<close> with the comma-joined emails exactly
  when the list of emails is not empty; with an empty list there is no \<^verbatim>\<open>to\<close> parameter
  at all. Subject, body and recipients are percent-encoded: an encoded value consists of
  ASCII letters, digits, \<^verbatim>\<open>* - . _\<close>, \<^verbatim>\<open>+\<close> and \<^verbatim>\<open>%\<close> only. For every analysis
  record the component builds this link from the harvested emails and the two mail texts.
\<close>

theorem gmailLink_recipients_iff_emails:
  "gmailLink subject body emails =
     js ''https://mail.google.com/mail/?view=cm&fs=1&su='' @ urlencode subject @
     js ''&body='' @ urlencode body @
     (if emails = [] then [] else js ''&to='' @ urlencode (join_with [44] emails))
   \<and> map_of (gmailParams subject body emails) (js ''to'') =
       (if emails = [] then None else Some (join_with [44] emails))
   \<and> ((\<forall>c\<in>set s. c < 65536) \<longrightarrow> (\<forall>c\<in>set (urlencode s). url_safe c \<or> c = 43 \<or> c = 37))
   \<and> (a \<noteq> JUndefined \<and> a \<noteq> JNull \<longrightarrow>
        (\<exists>es sb bd. founderEmails P a = Inr es \<and> mailSubject lc a = Inr sb \<and> mailBody a = Inr bd \<and>
           component_gmailLink P lc a = Inr (gmailLink sb bd es)))"
proof -
  have 1: "map_of (gmailParams subject body emails) (js ''to'') =
       (if emails = [] then None else Some (join_with [44] emails))"
    unfolding gmailParams_eq by (simp add: js_def)
  have 2: "\<exists>es sb bd. founderEmails P a = Inr es \<and> mailSubject lc a = Inr sb \<and> mailBody a = Inr bd \<and>
           component_gmailLink P lc a = Inr (gmailLink sb bd es)"
    if n: "a \<noteq> JUndefined" "a \<noteq> JNull"
  proof -
    from mail_texts_total[OF n] obtain sb bd where
      m: "mailSubject lc a = Inr sb" "mailBody a = Inr bd" by blast
    note e = founderEmails_eq[OF n, of P]
    have "component_gmailLink P lc a =
        Inr (gmailLink sb bd (first_seen (concat (map emails_of (harvest_sources P a)))))"
      by (simp add: component_gmailLink_def ebind_def e m)
    then show ?thesis using e m by blast
  qed
  show ?thesis using gmailLink_eq urlencode_safe 1 2 by blast
qed

theorem gmailLink_recipients_iff_emails_witness:
  "gmailLink (js ''Intro '' @ [8211]) (js ''Hi there'') [js ''a@x.com'', js ''b@y.org''] =
     js ''https://mail.google.com/mail/?view=cm&fs=1&su=Intro+%E2%80%93&body=Hi+there&to=a%40x.com%2Cb%40y.org''
   \<and> gmailLink (js ''Intro '' @ [8211]) (js ''Hi there'') [] =
     js ''https://mail.google.com/mail/?view=cm&fs=1&su=Intro+%E2%80%93&body=Hi+there''
   \<and> list_all (\<lambda>c. c < 65536) (js ''Hi there'')
   \<and> list_all (\<lambda>c. url_safe c \<or> c = 43 \<or> c = 37) (urlencode (js ''Hi there''))
   \<and> JObj [] \<noteq> JUndefined \<and> JObj [] \<noteq> JNull
   \<and> (\<exists>sb bd. mailSubject toLowerCase (JObj []) = Inr sb \<and> mailBody (JObj []) = Inr bd \<and>
         component_gmailLink parse_fails toLowerCase (JObj []) = Inr (gmailLink sb bd []))"
proof -
  have b: "\<forall>c\<in>set (js ''Hi there''). c < 65536" by (simp add: js_def)
  have n: "JObj [] \<noteq> JUndefined" "JObj [] \<noteq> JNull" by simp_all
  have "harvest_sources parse_fails (JObj []) =
      [JUndefined, JUndefined, JUndefined, JUndefined, JUndefined, JObj []]"
    by (simp add: harvest_sources_def publicData_of_def)
  then have e: "founderEmails parse_fails (JObj []) = Inr []"
    using founderEmails_eq[OF n, of parse_fails] by simp
  show ?thesis
    using gmailLink_recipients_iff_emails
            [of "js ''Intro '' @ [8211]" "js ''Hi there''" "[js ''a@x.com'', js ''b@y.org'']" "js ''Hi there''"
                "JObj []" parse_fails toLowerCase]
          gmailLink_recipients_iff_emails
            [of "js ''Intro '' @ [8211]" "js ''Hi there''" "[]" "js ''Hi there''" "JObj []" parse_fails
                toLowerCase]
          b e
    by (simp add: list_all_iff) (simp add: urlencode_eval)
qed

end
